theory Spec2Isabelle
  imports Main
begin

section \<open>The interactive automation runner (richie.py)\<close>

text \<open>
  The class \<^verbatim>\<open>AutomationUI\<close> walks an operator through a list of steps and keeps
  an audit trail of everything that happens. The model below follows the class method
  by method. The object's fields and the things the program reads from its surroundings
  (the keyboard, the answers to prompts, the wall clock, the outcome of writing a file)
  are the fields of one record; every method takes the record and returns it updated.
\<close>

subsection \<open>Strings, detail values and exceptions\<close>

text \<open>
  A Python \<^verbatim>\<open>str\<close> is a sequence of Unicode code points, so it is a list of
  natural numbers here; \<open>lit\<close> embeds an ASCII literal of the source.
\<close>

type_synonym pystr = "nat list"

definition lit :: "string \<Rightarrow> pystr" where
  "lit cs = map of_char cs"

text \<open>The values the program stores in the \<^verbatim>\<open>details\<close> dict of a log entry.\<close>

datatype val = VStr pystr | VInt int

text \<open>
  The exceptions the modelled code can raise: a missing key of a step dict, an index
  outside the step list, a key byte that is not UTF-8, and a failure reported by the
  file system, which carries the text of \<^verbatim>\<open>str(e)\<close>.
\<close>

datatype exn = KeyError pystr | IndexError | UnicodeDecodeError char | OSError pystr

definition hex_digit :: "nat \<Rightarrow> nat" where
  "hex_digit d = (if d < 10 then 48 + d else 87 + d)"

definition exn_str :: "exn \<Rightarrow> pystr" where
  "exn_str e = (case e of
      KeyError k \<Rightarrow> [39] @ k @ [39]
    | IndexError \<Rightarrow> lit ''list index out of range''
    | UnicodeDecodeError b \<Rightarrow>
        lit [CHR 0x27] @ lit ''utf-8'' @ lit [CHR 0x27] @ lit '' codec can''
          @ lit [CHR 0x27] @ lit ''t decode byte 0x''
          @ [hex_digit (of_char b div 16), hex_digit (of_char b mod 16)]
          @ lit '' in position 0: ''
          @ (if 0xC2 \<le> (of_char b :: nat) \<and> (of_char b :: nat) \<le> 0xF4
             then lit ''unexpected end of data'' else lit ''invalid start byte'')
    | OSError m \<Rightarrow> m)"

subsection \<open>The session state\<close>

text \<open>
  A log entry as \<^verbatim>\<open>log_event\<close> builds it. The \<^verbatim>\<open>details\<close> dict is an
  association list in insertion order.
\<close>

record log_entry =
  timestamp :: pystr
  event :: pystr
  step :: int
  details :: "(pystr \<times> val) list"

text \<open>What one poll of the keyboard meets: a pending key byte or none, or a signal
  (SIGINT or SIGTERM) that is delivered while the wait loop sleeps.\<close>

datatype kev = Poll "char option" | Signal

text \<open>
  The first five fields are the fields of the object (\<^verbatim>\<open>step_history\<close> is
  created empty and never used, \<open>printed\<close> stands for the console and keeps the level
  and text of every message shown by \<^verbatim>\<open>print_message\<close>). The others are the
  surroundings: \<open>keys\<close> is what the successive polls of the keyboard will meet,
  \<open>confirms\<close> and \<open>choices\<close> are the operator's answers to the yes/no questions and to
  the format prompt, \<open>clock n\<close> is the text of the \<open>n\<close>-th reading of the wall clock
  (in the format the reading's call site asks for) and \<open>disk n\<close> is the outcome of the
  \<open>n\<close>-th attempt to write a log file: \<open>None\<close> when it succeeds, the text of the
  exception otherwise.
\<close>

record state =
  current_step :: int
  session_logs :: "log_entry list"
  session_start_time :: pystr
  is_running :: bool
  printed :: "(pystr \<times> pystr) list"
  keys :: "kev list"
  confirms :: "bool list"
  choices :: "pystr list"
  clock :: "nat \<Rightarrow> pystr"
  ticks :: nat
  disk :: "nat \<Rightarrow> pystr option"
  exports :: nat

text \<open>
  The outcome of a call: it returns a value and the new state, it raises an exception
  (the state is what the call had done until then), or it never returns because it waits
  for input that does not come.
\<close>

datatype 'a result = Waiting | Raised exn state | Returned 'a state

text \<open>Sequencing: the second call runs in the state the first one returned; an exception
  or an endless wait of the first is the outcome of the whole.\<close>

definition bind :: "'a result \<Rightarrow> ('a \<Rightarrow> state \<Rightarrow> 'b result) \<Rightarrow> 'b result" where
  "bind r f = (case r of
      Waiting \<Rightarrow> Waiting
    | Raised e s \<Rightarrow> Raised e s
    | Returned x s \<Rightarrow> f x s)"

text \<open>\<^verbatim>\<open>datetime.datetime.now()\<close>, rendered.\<close>

definition now :: "state \<Rightarrow> pystr \<times> state" where
  "now s = (clock s (ticks s), s\<lparr>ticks := Suc (ticks s)\<rparr>)"

text \<open>\<^verbatim>\<open>Confirm.ask\<close> and \<^verbatim>\<open>Prompt.ask\<close> return the operator's next answer.\<close>

definition confirm_ask :: "state \<Rightarrow> bool result" where
  "confirm_ask s = (case confirms s of
      [] \<Rightarrow> Waiting
    | b # bs \<Rightarrow> Returned b (s\<lparr>confirms := bs\<rparr>))"

definition prompt_ask :: "state \<Rightarrow> pystr result" where
  "prompt_ask s = (case choices s of
      [] \<Rightarrow> Waiting
    | c # cs \<Rightarrow> Returned c (s\<lparr>choices := cs\<rparr>))"

subsection \<open>Logging and messages\<close>

definition log_event :: "pystr \<Rightarrow> (pystr \<times> val) list option \<Rightarrow> state \<Rightarrow> state" where
  "log_event ev dets s =
     (let (t, s1) = now s;
          log_entry = \<lparr>timestamp = t, event = ev, step = current_step s1 + 1,
                       details = (case dets of None \<Rightarrow> [] | Some d \<Rightarrow> d)\<rparr>
      in s1\<lparr>session_logs := session_logs s1 @ [log_entry]\<rparr>)"

definition print_message :: "pystr \<Rightarrow> pystr \<Rightarrow> state \<Rightarrow> state" where
  "print_message message level s =
     log_event (lit ''Message displayed'')
       (Some [(lit ''message'', VStr message), (lit ''level'', VStr level)])
       (s\<lparr>printed := printed s @ [(level, message)]\<rparr>)"

subsection \<open>The keyboard\<close>

text \<open>
  \<^verbatim>\<open>bytes.decode('utf-8')\<close> on the single byte that \<^verbatim>\<open>msvcrt.getch()\<close>
  returns: a byte below 128 is the code point of that number, any other byte is not a
  complete UTF-8 sequence. \<^verbatim>\<open>str.lower()\<close> on such a code point only changes
  the letters A to Z.
\<close>

definition decode_utf8 :: "char \<Rightarrow> exn + pystr" where
  "decode_utf8 b = (if (of_char b :: nat) < 128 then Inr [of_char b]
                    else Inl (UnicodeDecodeError b))"

definition lower :: "pystr \<Rightarrow> pystr" where
  "lower cs = map (\<lambda>c. if 65 \<le> c \<and> c \<le> 90 then c + 32 else c) cs"

definition actions :: "(pystr \<times> pystr) list" where
  "actions =
     [([13], lit ''proceed''),
      (lit ''h'', lit ''help''),
      (lit ''q'', lit ''exit''),
      (lit ''l'', lit ''logs''),
      (lit ''r'', lit ''retry''),
      (lit ''s'', lit ''summary'')]"

text \<open>The argument is the pending key, \<open>None\<close> when \<^verbatim>\<open>msvcrt.kbhit()\<close> is false.\<close>

definition check_keyboard_input :: "char option \<Rightarrow> exn + pystr option" where
  "check_keyboard_input pending = (case pending of
      None \<Rightarrow> Inr None
    | Some b \<Rightarrow> (case decode_utf8 b of
          Inl e \<Rightarrow> Inl e
        | Inr key \<Rightarrow> Inr (map_of actions (lower key))))"

subsection \<open>Exporting the log and cleaning up\<close>

text \<open>
  \<^verbatim>\<open>export_logs\<close>: the clock is read for the file name, the content is rendered,
  the directory is made and the file written. Whatever is raised in between is caught.
  The renderers work on strings and integers only and raise nothing, so the only
  failure is the one the file system reports.
\<close>

definition export_logs :: "pystr \<Rightarrow> state \<Rightarrow> bool result" where
  "export_logs format s =
     (let (stamp, s1) = now s;
          filename = (if format = lit ''text''
                      then lit ''automation_logs_'' @ stamp @ lit ''.txt''
                      else lit ''automation_logs_'' @ stamp @ lit ''.json'');
          log_path = lit ''logs'' @ [92] @ filename;
          s2 = s1\<lparr>exports := Suc (exports s1)\<rparr>
      in case disk s1 (exports s1) of
           None \<Rightarrow>
             Returned True
               (log_event (lit ''Logs exported'') (Some [(lit ''filename'', VStr log_path)])
                  (print_message (lit ''Logs exported successfully to '' @ log_path)
                     (lit ''success'') s2))
         | Some e \<Rightarrow>
             Returned False
               (log_event (lit ''Log export failed'') (Some [(lit ''error'', VStr e)])
                  (print_message (lit ''Error exporting logs: '' @ e) (lit ''error'') s2)))"

definition show_export_options :: "state \<Rightarrow> unit result" where
  "show_export_options s =
     bind (prompt_ask s) (\<lambda>format_choice s1.
     bind (export_logs format_choice s1) (\<lambda>_ s2. Returned () s2))"

definition cleanup :: "state \<Rightarrow> unit result" where
  "cleanup s =
     bind (if session_logs s \<noteq> [] then
             bind (confirm_ask s) (\<lambda>yes s1.
               if yes then show_export_options s1 else Returned () s1)
           else Returned () s)
       (\<lambda>_ s2. Returned () (print_message (lit ''Cleanup completed'') (lit ''info'') s2))"

definition handle_interrupt :: "state \<Rightarrow> unit result" where
  "handle_interrupt s =
     cleanup (print_message (10 # lit ''Gracefully shutting down...'') (lit ''warning'')
                (s\<lparr>is_running := False\<rparr>))"

subsection \<open>Running one step\<close>

text \<open>
  A step is a dict from field names to texts; \<^verbatim>\<open>step['title']\<close> raises
  \<^verbatim>\<open>KeyError\<close> when the field is missing.
\<close>

type_synonym step_dict = "pystr \<rightharpoonup> pystr"

definition getitem :: "step_dict \<Rightarrow> pystr \<Rightarrow> state \<Rightarrow> pystr result" where
  "getitem stp k s = (case stp k of
      None \<Rightarrow> Raised (KeyError k) s
    | Some v \<Rightarrow> Returned v s)"

definition display_header :: "state \<Rightarrow> state" where
  "display_header s = log_event (lit ''Header displayed'') None s"

text \<open>The panel itself is only shown; building it reads three fields of the step.\<close>

definition create_step_panel :: "step_dict \<Rightarrow> state \<Rightarrow> unit result" where
  "create_step_panel stp s =
     bind (getitem stp (lit ''title'') s) (\<lambda>_ s1.
     bind (getitem stp (lit ''description'') s1) (\<lambda>_ s2.
     bind (getitem stp (lit ''status'') s2) (\<lambda>_ s3. Returned () s3)))"

definition display_progress :: "pystr \<Rightarrow> state \<Rightarrow> state" where
  "display_progress description s =
     log_event (lit ''Progress completed'') (Some [(lit ''description'', VStr description)])
       (log_event (lit ''Progress started'') (Some [(lit ''description'', VStr description)]) s)"

definition display_help :: "step_dict \<Rightarrow> state \<Rightarrow> unit result" where
  "display_help stp s =
     bind (getitem stp (lit ''title'') s) (\<lambda>title s1.
     bind (Returned () (log_event (lit ''Help displayed'') (Some [(lit ''step_title'', VStr title)]) s1))
       (\<lambda>_ s2.
     bind (getitem stp (lit ''title'') s2) (\<lambda>_ s3.
     bind (getitem stp (lit ''help_text'') s3) (\<lambda>_ s4.
     bind (getitem stp (lit ''common_issues'') s4) (\<lambda>_ s5. Returned () s5)))))"

text \<open>
  The wait loop of \<^verbatim>\<open>show_action_menu\<close>. Each round polls the keyboard once and
  sleeps; a signal that arrives during the sleep runs \<^verbatim>\<open>handle_interrupt\<close> and
  the loop goes on. When nothing more is pending the loop polls for ever.
\<close>

fun poll_loop :: "kev list \<Rightarrow> state \<Rightarrow> pystr result" where
  "poll_loop [] s = Waiting"
| "poll_loop (Signal # ks) s =
     bind (handle_interrupt (s\<lparr>keys := ks\<rparr>)) (\<lambda>_ s1. poll_loop ks s1)"
| "poll_loop (Poll pending # ks) s =
     (case check_keyboard_input pending of
        Inl e \<Rightarrow> Raised e (s\<lparr>keys := ks\<rparr>)
      | Inr None \<Rightarrow> poll_loop ks (s\<lparr>keys := ks\<rparr>)
      | Inr (Some action) \<Rightarrow>
          Returned action
            (log_event (lit ''Action selected'') (Some [(lit ''action'', VStr action)])
               (s\<lparr>keys := ks\<rparr>)))"

definition show_action_menu :: "state \<Rightarrow> pystr result" where
  "show_action_menu s = poll_loop (keys s) s"

subsection \<open>What a call leaves alone\<close>

text \<open>
  \<open>post r Q\<close>: the state in which the call \<open>r\<close> ended, by returning or by raising,
  satisfies \<open>Q\<close>. The log only grows; \<open>quiet s s'\<close> says that from \<open>s\<close> to \<open>s'\<close> it
  grew by events other than the start of a step. Two states are \<open>untouched\<close> when they
  moreover agree on the step index and on the pending keyboard events.
\<close>

definition post :: "'a result \<Rightarrow> (state \<Rightarrow> bool) \<Rightarrow> bool" where
  "post r Q = (case r of Waiting \<Rightarrow> True | Raised e s \<Rightarrow> Q s | Returned x s \<Rightarrow> Q s)"

definition quiet :: "state \<Rightarrow> state \<Rightarrow> bool" where
  "quiet s s' \<longleftrightarrow>
     (\<exists>new. session_logs s' = session_logs s @ new \<and> lit ''Step started'' \<notin> event ` set new)"

definition untouched :: "state \<Rightarrow> state \<Rightarrow> bool" where
  "untouched s s' \<longleftrightarrow>
     current_step s' = current_step s \<and> keys s' = keys s \<and> quiet s s'"

definition consumed :: "state \<Rightarrow> state \<Rightarrow> bool" where
  "consumed s s' \<longleftrightarrow>
     current_step s' = current_step s \<and> length (keys s') \<le> length (keys s) \<and> quiet s s'"

lemma lit_eq_iff [simp]: "lit a = lit b \<longleftrightarrow> a = b"
  by (simp add: lit_def inj_map_eq_map inj_on_def)

lemma bind_cong [fundef_cong]:
  "r = r' \<Longrightarrow> (\<And>x s. r' = Returned x s \<Longrightarrow> f x s = f' x s) \<Longrightarrow> bind r f = bind r' f'"
  by (simp add: bind_def split: result.splits)

lemma bind_simps [simp]:
  "bind Waiting f = Waiting"
  "bind (Raised e s) f = Raised e s"
  "bind (Returned x s) f = f x s"
  by (simp_all add: bind_def)

lemma post_simps [simp]:
  "post Waiting Q"
  "post (Raised e s) Q = Q s"
  "post (Returned x s) Q = Q s"
  by (simp_all add: post_def)

lemma post_Returned: "r = Returned x s' \<Longrightarrow> post r Q \<Longrightarrow> Q s'"
  by simp

lemma post_Raised: "r = Raised e s' \<Longrightarrow> post r Q \<Longrightarrow> Q s'"
  by simp

lemma post_mono: "post r Q \<Longrightarrow> (\<And>s. Q s \<Longrightarrow> Q' s) \<Longrightarrow> post r Q'"
  by (cases r) auto

lemma post_bind:
  assumes "post r (R s)"
    and "\<And>x s1. r = Returned x s1 \<Longrightarrow> post (f x s1) (R s1)"
    and "\<And>a b c. R a b \<Longrightarrow> R b c \<Longrightarrow> R a c"
  shows "post (bind r f) (R s)"
proof (cases r)
  case Waiting
  then show ?thesis by simp
next
  case (Raised e s1)
  with assms(1) show ?thesis by simp
next
  case (Returned x s1)
  with assms(1) have "R s s1" by simp
  moreover from assms(2) [OF Returned] have "post (f x s1) (R s1)" .
  ultimately have "post (f x s1) (R s)"
    using assms(3) by (cases "f x s1") auto
  with Returned show ?thesis by simp
qed

text \<open>Logging and printing only touch the log, the console and the clock.\<close>

lemma log_event_fields [simp]:
  "current_step (log_event ev d s) = current_step s"
  "is_running (log_event ev d s) = is_running s"
  "keys (log_event ev d s) = keys s"
  "confirms (log_event ev d s) = confirms s"
  "choices (log_event ev d s) = choices s"
  "clock (log_event ev d s) = clock s"
  "disk (log_event ev d s) = disk s"
  "exports (log_event ev d s) = exports s"
  "session_start_time (log_event ev d s) = session_start_time s"
  "printed (log_event ev d s) = printed s"
  "ticks (log_event ev d s) = Suc (ticks s)"
  by (simp_all add: log_event_def now_def)

lemma print_message_fields [simp]:
  "current_step (print_message m l s) = current_step s"
  "is_running (print_message m l s) = is_running s"
  "keys (print_message m l s) = keys s"
  "confirms (print_message m l s) = confirms s"
  "choices (print_message m l s) = choices s"
  "clock (print_message m l s) = clock s"
  "disk (print_message m l s) = disk s"
  "exports (print_message m l s) = exports s"
  "session_start_time (print_message m l s) = session_start_time s"
  "printed (print_message m l s) = printed s @ [(l, m)]"
  "ticks (print_message m l s) = Suc (ticks s)"
  by (simp_all add: print_message_def)

lemma display_progress_fields [simp]:
  "current_step (display_progress x s) = current_step s"
  "is_running (display_progress x s) = is_running s"
  "keys (display_progress x s) = keys s"
  "confirms (display_progress x s) = confirms s"
  "choices (display_progress x s) = choices s"
  "clock (display_progress x s) = clock s"
  "disk (display_progress x s) = disk s"
  "exports (display_progress x s) = exports s"
  "session_start_time (display_progress x s) = session_start_time s"
  "printed (display_progress x s) = printed s"
  by (simp_all add: display_progress_def)

lemma session_logs_log_event [simp]:
  "session_logs (log_event ev d s) =
     session_logs s @ [\<lparr>timestamp = clock s (ticks s), event = ev, step = current_step s + 1,
                         details = (case d of None \<Rightarrow> [] | Some x \<Rightarrow> x)\<rparr>]"
  by (simp add: log_event_def now_def)

lemma session_logs_print_message [simp]:
  "session_logs (print_message m l s) =
     session_logs s @ [\<lparr>timestamp = clock s (ticks s), event = lit ''Message displayed'',
                         step = current_step s + 1,
                         details = [(lit ''message'', VStr m), (lit ''level'', VStr l)]\<rparr>]"
  by (simp add: print_message_def)

lemma quiet_refl [simp]: "quiet s s"
  by (simp add: quiet_def)

lemma quiet_trans: "quiet s s1 \<Longrightarrow> quiet s1 s2 \<Longrightarrow> quiet s s2"
  by (auto simp add: quiet_def)

lemma quiet_log_event [simp]: "ev \<noteq> lit ''Step started'' \<Longrightarrow> quiet s (log_event ev d s)"
  by (simp add: quiet_def)

lemma quiet_print_message [simp]: "quiet s (print_message m l s)"
  by (simp add: quiet_def)

lemma quiet_fields:
  "session_logs s' = session_logs s \<Longrightarrow> quiet s s'"
  by (simp add: quiet_def)

lemma untouched_refl [simp]: "untouched s s"
  by (simp add: untouched_def)

lemma untouched_trans: "untouched s s1 \<Longrightarrow> untouched s1 s2 \<Longrightarrow> untouched s s2"
  by (auto simp add: untouched_def intro: quiet_trans)

lemma post_bind_untouched:
  "post r (untouched s) \<Longrightarrow> (\<And>x s1. r = Returned x s1 \<Longrightarrow> post (f x s1) (untouched s1))
     \<Longrightarrow> post (bind r f) (untouched s)"
  by (rule post_bind [where R = untouched]) (auto intro: untouched_trans)

lemma post_untouched_from:
  "untouched s s0 \<Longrightarrow> post r (untouched s0) \<Longrightarrow> post r (untouched s)"
  by (cases r) (auto intro: untouched_trans)

lemma untouched_log_event [simp]:
  "ev \<noteq> lit ''Step started'' \<Longrightarrow> untouched s (log_event ev d s)"
  by (simp add: untouched_def)

lemma untouched_print_message [simp]: "untouched s (print_message m l s)"
  by (simp add: untouched_def)

lemma untouched_display_progress [simp]: "untouched s (display_progress d s)"
  unfolding display_progress_def
  by (rule untouched_trans [OF untouched_log_event untouched_log_event]) simp_all

lemma untouched_getitem: "post (getitem stp k s) (untouched s)"
  by (simp add: getitem_def split: option.splits)

lemma untouched_confirm_ask: "post (confirm_ask s) (untouched s)"
  by (simp add: confirm_ask_def untouched_def quiet_def split: list.splits)

lemma untouched_prompt_ask: "post (prompt_ask s) (untouched s)"
  by (simp add: prompt_ask_def untouched_def quiet_def split: list.splits)

lemma untouched_export_logs: "post (export_logs f s) (untouched s)"
proof -
  let ?s2 = "s\<lparr>ticks := Suc (ticks s), exports := Suc (exports s)\<rparr>"
  have "untouched s ?s2"
    by (simp add: untouched_def quiet_def)
  moreover have "untouched ?s2 (log_event ev d (print_message m l ?s2))"
    if "ev \<noteq> lit ''Step started''" for ev d m l
    using that by (blast intro: untouched_trans untouched_print_message untouched_log_event)
  ultimately show ?thesis
    by (auto simp add: export_logs_def now_def Let_def split: option.splits
        intro!: untouched_trans [of s ?s2])
qed

lemma untouched_show_export_options: "post (show_export_options s) (untouched s)"
  unfolding show_export_options_def
  by (intro post_bind_untouched untouched_prompt_ask untouched_export_logs) simp

lemma untouched_cleanup: "post (cleanup s) (untouched s)"
  unfolding cleanup_def
  by (intro post_bind_untouched)
     (auto intro!: post_bind_untouched untouched_confirm_ask untouched_show_export_options)

lemma untouched_handle_interrupt: "post (handle_interrupt s) (untouched s)"
proof -
  have "untouched s (s\<lparr>is_running := False\<rparr>)"
    by (simp add: untouched_def quiet_def)
  then have "untouched s (print_message (10 # lit ''Gracefully shutting down...'') (lit ''warning'')
               (s\<lparr>is_running := False\<rparr>))"
    by (rule untouched_trans) simp
  then show ?thesis
    unfolding handle_interrupt_def
    by (rule post_untouched_from) (rule untouched_cleanup)
qed

lemma untouched_display_help: "post (display_help stp s) (untouched s)"
  unfolding display_help_def
  by (intro post_bind_untouched untouched_getitem) simp_all

lemma untouched_create_step_panel: "post (create_step_panel stp s) (untouched s)"
  unfolding create_step_panel_def
  by (intro post_bind_untouched untouched_getitem) simp_all

text \<open>The wait loop uses up keyboard events and leaves the step index alone.\<close>

lemma consumed_refl [simp]: "consumed s s"
  by (simp add: consumed_def)

lemma consumed_trans: "consumed s s1 \<Longrightarrow> consumed s1 s2 \<Longrightarrow> consumed s s2"
  by (auto simp add: consumed_def intro: quiet_trans)

lemma untouched_consumed: "untouched s s' \<Longrightarrow> consumed s s'"
  by (simp add: untouched_def consumed_def)

lemma post_bind_consumed:
  "post r (consumed s) \<Longrightarrow> (\<And>x s1. r = Returned x s1 \<Longrightarrow> post (f x s1) (consumed s1))
     \<Longrightarrow> post (bind r f) (consumed s)"
  by (rule post_bind [where R = consumed]) (auto intro: consumed_trans)

lemma post_consumed_from:
  "consumed s s0 \<Longrightarrow> post r (consumed s0) \<Longrightarrow> post r (consumed s)"
  by (cases r) (auto intro: consumed_trans)

lemma poll_loop_post:
  "post (poll_loop ks s)
     (\<lambda>s'. current_step s' = current_step s \<and> length (keys s') \<le> length ks \<and> quiet s s')"
proof (induction ks s rule: poll_loop.induct)
  case (1 s)
  show ?case by simp
next
  case (2 ks s)
  have h: "post (handle_interrupt (s\<lparr>keys := ks\<rparr>)) (untouched (s\<lparr>keys := ks\<rparr>))"
    by (rule untouched_handle_interrupt)
  have q: "quiet s (s\<lparr>keys := ks\<rparr>)"
    by (simp add: quiet_def)
  show ?case
  proof (cases "handle_interrupt (s\<lparr>keys := ks\<rparr>)")
    case Waiting
    then show ?thesis by simp
  next
    case (Raised e s1)
    with h q show ?thesis by (auto simp add: untouched_def intro: quiet_trans)
  next
    case (Returned u s1)
    with h q have "current_step s1 = current_step s" and "quiet s s1"
      by (auto simp add: untouched_def intro: quiet_trans)
    with "2.IH" [of s1] Returned show ?thesis
      by (cases "poll_loop ks s1") (auto intro: quiet_trans)
  qed
next
  case (3 pending ks s)
  have q: "quiet s (s\<lparr>keys := ks\<rparr>)"
    by (simp add: quiet_def)
  show ?case
  proof (cases "check_keyboard_input pending")
    case (Inl e)
    with q show ?thesis by simp
  next
    case (Inr found)
    show ?thesis
    proof (cases found)
      case None
      with Inr "3.IH" [of found] q show ?thesis
        by (cases "poll_loop ks (s\<lparr>keys := ks\<rparr>)") (auto intro: quiet_trans)
    next
      case (Some action)
      have "quiet (s\<lparr>keys := ks\<rparr>)
              (log_event (lit ''Action selected'') (Some [(lit ''action'', VStr action)])
                 (s\<lparr>keys := ks\<rparr>))"
        by simp
      with q have "quiet s (log_event (lit ''Action selected'') (Some [(lit ''action'', VStr action)])
                 (s\<lparr>keys := ks\<rparr>))"
        by (rule quiet_trans)
      with Inr Some show ?thesis
        by simp
    qed
  qed
qed

lemma poll_loop_shorter:
  "poll_loop ks s = Returned a s' \<Longrightarrow> length (keys s') < length ks"
proof (induction ks s rule: poll_loop.induct)
  case (1 s)
  then show ?case by simp
next
  case (2 ks s)
  from "2.prems" obtain u s1 where r: "handle_interrupt (s\<lparr>keys := ks\<rparr>) = Returned u s1"
    and p: "poll_loop ks s1 = Returned a s'"
    by (cases "handle_interrupt (s\<lparr>keys := ks\<rparr>)") auto
  from "2.IH" [OF p] show ?case by simp
next
  case (3 pending ks s)
  show ?case
  proof (cases "check_keyboard_input pending")
    case (Inl e)
    with "3.prems" show ?thesis by simp
  next
    case (Inr found)
    show ?thesis
    proof (cases found)
      case None
      with Inr "3.prems" have "poll_loop ks (s\<lparr>keys := ks\<rparr>) = Returned a s'" by simp
      from "3.IH" [OF Inr None this] show ?thesis by simp
    next
      case (Some action)
      with Inr "3.prems" show ?thesis
        by auto
    qed
  qed
qed

lemma show_action_menu_shorter:
  "show_action_menu s = Returned a s' \<Longrightarrow> length (keys s') < length (keys s)"
  by (simp add: show_action_menu_def poll_loop_shorter)

lemma consumed_show_action_menu: "post (show_action_menu s) (consumed s)"
  unfolding show_action_menu_def consumed_def by (rule poll_loop_post)

subsection \<open>The action loop of a step\<close>

text \<open>
  One round of the \<^verbatim>\<open>while True\<close> loop of \<^verbatim>\<open>run_step\<close>, after the menu
  has returned an action: \<open>Some b\<close> when the round executes \<^verbatim>\<open>return b\<close>,
  \<open>None\<close> when control goes back to the top of the loop. The action
  \<^verbatim>\<open>summary\<close> matches no branch.
\<close>

definition dispatch :: "step_dict \<Rightarrow> pystr \<Rightarrow> state \<Rightarrow> bool option result" where
  "dispatch stp action s =
     (if action = lit ''proceed'' then
        bind (getitem stp (lit ''title'') s) (\<lambda>title s1.
        bind (getitem stp (lit ''title'')
                (print_message (lit ''Step '' @ [39] @ title @ [39] @ lit '' completed'')
                   (lit ''success'') s1)) (\<lambda>title s2.
          Returned (Some True)
            (log_event (lit ''Step completed'') (Some [(lit ''step_title'', VStr title)]) s2)))
      else if action = lit ''retry'' then
        bind (getitem stp (lit ''title'')
                (print_message (lit ''Retrying step...'') (lit ''warning'') s)) (\<lambda>title s1.
          Returned None
            (display_progress (lit ''Retrying operation...'')
               (log_event (lit ''Step retry'') (Some [(lit ''step_title'', VStr title)]) s1)))
      else if action = lit ''help'' then
        bind (display_help stp s) (\<lambda>_ s1. Returned None s1)
      else if action = lit ''logs'' then
        bind (show_export_options s) (\<lambda>_ s1. Returned None s1)
      else if action = lit ''exit'' then
        bind (confirm_ask s) (\<lambda>yes s1.
          if yes then
            Returned (Some False)
              (log_event (lit ''Session terminated by user'') None
                 (print_message (lit ''Session terminated by user'') (lit ''warning'') s1))
          else Returned None s1)
      else Returned None s)"

lemma untouched_dispatch: "post (dispatch stp action s) (untouched s)"
proof -
  have "post (getitem stp k (print_message m l s)) (untouched s)" for k m l
    by (rule post_untouched_from [OF untouched_print_message untouched_getitem])
  moreover have "untouched s1 (display_progress d (log_event (lit ''Step retry'') x s1))" for d x s1
    by (rule untouched_trans [OF untouched_log_event untouched_display_progress]) simp
  moreover have "untouched s1 (log_event (lit ''Session terminated by user'') None
                 (print_message (lit ''Session terminated by user'') (lit ''warning'') s1))" for s1
    by (rule untouched_trans [OF untouched_print_message untouched_log_event]) simp
  ultimately show ?thesis
    unfolding dispatch_def
    by (auto intro!: post_bind_untouched untouched_getitem untouched_display_help
        untouched_show_export_options untouched_confirm_ask
        post_untouched_from [OF untouched_print_message untouched_getitem])
qed

text \<open>
  The loop itself. Every round takes at least one keyboard event, so the loop is a total
  function of the events that are still to come: when they run out before an action
  ends the step, the outcome is \<open>Waiting\<close>.
\<close>

function action_loop :: "step_dict \<Rightarrow> state \<Rightarrow> bool result" where
  "action_loop stp s =
     bind (show_action_menu s) (\<lambda>action s1.
     bind (dispatch stp action s1) (\<lambda>returns s2.
       case returns of
         Some b \<Rightarrow> Returned b s2
       | None \<Rightarrow> action_loop stp s2))"
  by pat_completeness auto
termination
proof (relation "measure (\<lambda>(stp, s). length (keys s))")
  show "wf (measure (\<lambda>(stp, s). length (keys s)))"
    by simp
next
  fix stp :: step_dict and s action s1 returns s2
  assume "show_action_menu s = Returned action s1"
    and "dispatch stp action s1 = Returned returns s2"
  then have "length (keys s1) < length (keys s)" and "untouched s1 s2"
    by (auto dest: show_action_menu_shorter post_Returned [OF _ untouched_dispatch])
  then show "((stp, s2), stp, s) \<in> measure (\<lambda>(stp, s). length (keys s))"
    by (simp add: untouched_def)
qed

declare action_loop.simps [simp del]

lemma consumed_action_loop: "post (action_loop stp s) (consumed s)"
proof (induction stp s rule: action_loop.induct)
  case (1 stp s)
  show ?case
  proof (subst action_loop.simps, intro post_bind_consumed consumed_show_action_menu)
    fix action s1
    assume "show_action_menu s = Returned action s1"
    show "post (dispatch stp action s1) (consumed s1)"
      by (rule post_mono [OF untouched_dispatch untouched_consumed])
  next
    fix action s1 returns s2
    assume "show_action_menu s = Returned action s1"
      and "dispatch stp action s1 = Returned returns s2"
    then show "post (case returns of Some b \<Rightarrow> Returned b s2 | None \<Rightarrow> action_loop stp s2)
                 (consumed s2)"
      using "1.IH" by (cases returns) auto
  qed
qed

text \<open>\<^verbatim>\<open>run_step\<close>: the header, the step-started event, the panel, the progress
  indicator, then the action loop.\<close>

definition run_step :: "step_dict \<Rightarrow> state \<Rightarrow> bool result" where
  "run_step stp s =
     bind (getitem stp (lit ''title'') (display_header s)) (\<lambda>title s1.
     bind (getitem stp (lit ''status'') s1) (\<lambda>status s2.
     bind (create_step_panel stp
             (log_event (lit ''Step started'')
                (Some [(lit ''step_title'', VStr title), (lit ''step_status'', VStr status)]) s2))
       (\<lambda>_ s3.
     bind (getitem stp (lit ''title'') s3) (\<lambda>title s4.
       action_loop stp (display_progress (lit ''Running '' @ title @ lit ''...'') s4)))))"

definition same_step :: "state \<Rightarrow> state \<Rightarrow> bool" where
  "same_step s s' \<longleftrightarrow> current_step s' = current_step s"

lemma same_step_run_step: "post (run_step stp s) (same_step s)"
proof -
  have c: "post r (same_step a)" if "post r (consumed a)" for a and r :: "'a result"
    using that by (rule post_mono) (simp add: consumed_def same_step_def)
  have u: "post r (same_step a)" if "post r (untouched a)" for a and r :: "'a result"
    using that by (rule post_mono) (simp add: untouched_def same_step_def)
  have b: "post (bind r f) (same_step a)"
    if "post r (same_step a)" "\<And>x s1. r = Returned x s1 \<Longrightarrow> post (f x s1) (same_step s1)"
    for a and r :: "'a result" and f :: "'a \<Rightarrow> state \<Rightarrow> 'b result"
    using that by (rule post_bind [where R = same_step]) (simp_all add: same_step_def)
  have g: "post r (same_step a)" if "same_step a a0" "post r (same_step a0)"
    for a a0 and r :: "'a result"
    using that by (cases r) (simp_all add: same_step_def)
  show ?thesis
    unfolding run_step_def
    apply (intro b)
       apply (rule g [OF _ u [OF untouched_getitem]])
       apply (simp add: same_step_def display_header_def)
      apply (rule u [OF untouched_getitem])
     apply (rule g [OF _ u [OF untouched_create_step_panel]])
     apply (simp add: same_step_def)
    apply (rule u [OF untouched_getitem])
    apply (rule g [OF _ c [OF consumed_action_loop]])
    apply (simp add: same_step_def)
    done
qed

subsection \<open>The main loop\<close>

text \<open>\<^verbatim>\<open>steps[self.current_step]\<close>, with Python's reading of a negative index.\<close>

definition steps_getitem :: "step_dict list \<Rightarrow> int \<Rightarrow> state \<Rightarrow> step_dict result" where
  "steps_getitem steps i s =
     (if 0 \<le> i \<and> i < int (length steps) then Returned (steps ! nat i) s
      else if i < 0 \<and> - int (length steps) \<le> i
        then Returned (steps ! nat (int (length steps) + i)) s
      else Raised IndexError s)"

text \<open>
  The body of the \<^verbatim>\<open>while\<close> loop of \<^verbatim>\<open>run_automation\<close>: \<open>True\<close> when the
  loop goes on to test its condition again, \<open>False\<close> at \<^verbatim>\<open>break\<close>. The assignment
  \<^verbatim>\<open>self.current_step += 1\<close> is here and nowhere else.
\<close>

definition loop_body :: "step_dict list \<Rightarrow> state \<Rightarrow> bool result" where
  "loop_body steps s =
     bind (steps_getitem steps (current_step s) s) (\<lambda>stp s1.
     bind (run_step stp s1) (\<lambda>completed s2.
       if completed then Returned True (s2\<lparr>current_step := current_step s2 + 1\<rparr>)
       else Returned False s2))"

lemma loop_body_True:
  assumes "loop_body steps s = Returned True s'"
  shows "current_step s' = current_step s + 1"
proof -
  from assms obtain stp s1 where g: "steps_getitem steps (current_step s) s = Returned stp s1"
    and r: "bind (run_step stp s1) (\<lambda>completed s2.
       if completed then Returned True (s2\<lparr>current_step := current_step s2 + 1\<rparr>)
       else Returned False s2) = Returned True s'"
    unfolding loop_body_def by (cases "steps_getitem steps (current_step s) s") auto
  from g have s1: "s1 = s"
    by (simp add: steps_getitem_def split: if_splits)
  from r obtain s2 where r2: "run_step stp s1 = Returned True s2"
    and s': "s' = s2\<lparr>current_step := current_step s2 + 1\<rparr>"
    by (cases "run_step stp s1") (auto split: if_splits)
  from post_Returned [OF r2 same_step_run_step] have "current_step s2 = current_step s1"
    by (simp add: same_step_def)
  with s1 s' show ?thesis by simp
qed

function automation_loop :: "step_dict list \<Rightarrow> state \<Rightarrow> unit result" where
  "automation_loop steps s =
     (if current_step s < int (length steps) \<and> is_running s then
        bind (loop_body steps s) (\<lambda>again s1.
          if again then automation_loop steps s1 else Returned () s1)
      else Returned () s)"
  by pat_completeness auto
termination
proof (relation "measure (\<lambda>(steps, s). nat (int (length steps) - current_step s))")
  show "wf (measure (\<lambda>(steps, s). nat (int (length steps) - current_step s)))"
    by simp
next
  fix steps :: "step_dict list" and s again s1
  assume "current_step s < int (length steps) \<and> is_running s"
    and "loop_body steps s = Returned again s1" and again
  then show "((steps, s1), steps, s)
               \<in> measure (\<lambda>(steps, s). nat (int (length steps) - current_step s))"
    by (auto dest: loop_body_True)
qed

declare automation_loop.simps [simp del]

text \<open>
  \<^verbatim>\<open>run_automation\<close> in its three layers: the \<^verbatim>\<open>try\<close> block, the
  \<^verbatim>\<open>except Exception\<close> handler around it, and the \<^verbatim>\<open>finally\<close> clause
  around both. The code point 127881 is the party popper of the success message.
\<close>

definition run_automation_try :: "step_dict list \<Rightarrow> state \<Rightarrow> unit result" where
  "run_automation_try steps s =
     bind (automation_loop steps s) (\<lambda>_ s1.
       if current_step s1 \<ge> int (length steps) then
         bind (confirm_ask
                 (print_message (127881 # lit '' Automation completed successfully!'')
                    (lit ''success'')
                    (log_event (lit ''Automation completed'')
                       (Some [(lit ''total_steps'', VInt (int (length steps)))]) s1)))
           (\<lambda>yes s2. if yes then show_export_options s2 else Returned () s2)
       else Returned () s1)"

definition run_automation_except :: "step_dict list \<Rightarrow> state \<Rightarrow> unit result" where
  "run_automation_except steps s =
     (case run_automation_try steps s of
        Raised e s1 \<Rightarrow>
          Returned ()
            (log_event (lit ''Error occurred'') (Some [(lit ''error'', VStr (exn_str e))])
               (print_message (lit ''Unexpected error: '' @ exn_str e) (lit ''error'') s1))
      | r \<Rightarrow> r)"

definition run_automation :: "step_dict list \<Rightarrow> state \<Rightarrow> unit result" where
  "run_automation steps s =
     (case run_automation_except steps s of
        Waiting \<Rightarrow> Waiting
      | Raised e s1 \<Rightarrow> bind (cleanup s1) (\<lambda>_ s2. Raised e s2)
      | Returned _ s1 \<Rightarrow> cleanup s1)"

text \<open>
  \<^verbatim>\<open>__init__\<close>, given the surroundings the session will meet. The first reading of
  the clock is the session start time, the second stamps the session-started event.
\<close>

definition init :: "kev list \<Rightarrow> bool list \<Rightarrow> pystr list \<Rightarrow> (nat \<Rightarrow> pystr)
    \<Rightarrow> (nat \<Rightarrow> pystr option) \<Rightarrow> state" where
  "init ks cs chs clk dsk =
     log_event (lit ''Session started'') None
       \<lparr>current_step = 0, session_logs = [], session_start_time = clk 0, is_running = True,
        printed = [], keys = ks, confirms = cs, choices = chs, clock = clk, ticks = 1,
        disk = dsk, exports = 0\<rparr>"

subsection \<open>Running the model\<close>

text \<open>
  With this rule the simplifier runs a sequence of calls in order: it looks at the
  continuation only once the first call has been worked out.
\<close>

lemma bind_weak_cong [cong]: "r = r' \<Longrightarrow> bind r f = bind r' f"
  by simp

lemma session_logs_display_progress [simp]:
  "session_logs (display_progress x s) =
     session_logs s @
       [\<lparr>timestamp = clock s (ticks s), event = lit ''Progress started'',
         step = current_step s + 1, details = [(lit ''description'', VStr x)]\<rparr>,
        \<lparr>timestamp = clock s (Suc (ticks s)), event = lit ''Progress completed'',
         step = current_step s + 1, details = [(lit ''description'', VStr x)]\<rparr>]"
  by (simp add: display_progress_def)

lemma ticks_display_progress [simp]: "ticks (display_progress x s) = Suc (Suc (ticks s))"
  by (simp add: display_progress_def)

lemmas run_defs = run_step_def getitem_def display_header_def create_step_panel_def
  display_help_def action_loop.simps show_action_menu_def dispatch_def
  loop_body_def steps_getitem_def automation_loop.simps run_automation_try_def
  run_automation_except_def run_automation_def cleanup_def handle_interrupt_def
  show_export_options_def export_logs_def confirm_ask_def prompt_ask_def

text \<open>
  A poll is \<open>idle\<close> when it yields no action: no key is pending, or the key is outside
  the table. The wait loop passes idle polls without a trace.
\<close>

definition idle :: "kev \<Rightarrow> bool" where
  "idle p = (case p of
      Poll pending \<Rightarrow> check_keyboard_input pending = Inr None
    | Signal \<Rightarrow> False)"

text \<open>A log entry without its timestamp.\<close>

definition entry_view :: "log_entry \<Rightarrow> pystr \<times> int \<times> (pystr \<times> val) list" where
  "entry_view e = (event e, step e, details e)"

text \<open>How often the closing message of \<^verbatim>\<open>cleanup\<close> has been printed.\<close>

definition cleanups :: "state \<Rightarrow> nat" where
  "cleanups s = length (filter (\<lambda>shown. snd shown = lit ''Cleanup completed'') (printed s))"

text \<open>\<open>returns r P\<close>: the call \<open>r\<close> returns, and its value and final state satisfy \<open>P\<close>.\<close>

definition returns :: "'a result \<Rightarrow> ('a \<Rightarrow> state \<Rightarrow> bool) \<Rightarrow> bool" where
  "returns r P = (case r of Waiting \<Rightarrow> False | Raised e s \<Rightarrow> False | Returned x s \<Rightarrow> P x s)"

lemma returns_simps [simp]:
  "\<not> returns Waiting P"
  "\<not> returns (Raised e s) P"
  "returns (Returned x s) P = P x s"
  by (simp_all add: returns_def)

lemma returns_weak_cong [cong]: "r = r' \<Longrightarrow> returns r P = returns r' P"
  by simp

lemma returns_mono: "returns r P \<Longrightarrow> (\<And>x s. P x s \<Longrightarrow> Q x s) \<Longrightarrow> returns r Q"
  by (cases r) simp_all

lemma returns_Returned: "returns r P \<Longrightarrow> \<exists>x s. r = Returned x s \<and> P x s"
  by (cases r) simp_all

lemma poll_loop_keys [simp]: "poll_loop ks (s\<lparr>keys := x\<rparr>) = poll_loop ks s"
proof (cases ks)
  case Nil
  then show ?thesis by simp
next
  case (Cons a rest)
  then show ?thesis by (cases a) (simp_all split: sum.split option.split)
qed

lemma poll_loop_idle [simp]:
  "list_all idle pre \<Longrightarrow> poll_loop (pre @ ks) s = poll_loop ks s"
proof (induction pre arbitrary: s)
  case Nil
  show ?case by simp
next
  case (Cons a pre)
  then show ?case
    by (cases a) (simp_all add: idle_def)
qed

lemma same_step_refl [simp]: "same_step s s"
  by (simp add: same_step_def)

lemma untouched_same_step: "untouched s s' \<Longrightarrow> same_step s s'"
  by (simp add: untouched_def same_step_def)

lemma post_bind_same_step:
  "post r (same_step s) \<Longrightarrow> (\<And>x s1. r = Returned x s1 \<Longrightarrow> post (f x s1) (same_step s1))
     \<Longrightarrow> post (bind r f) (same_step s)"
  by (rule post_bind [where R = same_step]) (simp_all add: same_step_def)

lemma post_same_step_from:
  "same_step s s0 \<Longrightarrow> post r (same_step s0) \<Longrightarrow> post r (same_step s)"
  by (cases r) (simp_all add: same_step_def)

lemma loop_body_cases:
  "(case loop_body steps s of
      Waiting \<Rightarrow> True
    | Raised e s' \<Rightarrow> current_step s' = current_step s
    | Returned again s' \<Rightarrow>
        (\<exists>stp s1. steps_getitem steps (current_step s) s = Returned stp s
           \<and> run_step stp s = Returned again s1
           \<and> current_step s1 = current_step s
           \<and> s' = (if again then s1\<lparr>current_step := current_step s + 1\<rparr> else s1)))"
proof (cases "steps_getitem steps (current_step s) s")
  case Waiting
  then show ?thesis by (simp add: loop_body_def)
next
  case (Raised e s1)
  then have "s1 = s" by (simp add: steps_getitem_def split: if_splits)
  with Raised show ?thesis by (simp add: loop_body_def)
next
  case (Returned stp s1)
  then have s1: "s1 = s" by (simp add: steps_getitem_def split: if_splits)
  have r: "post (run_step stp s) (same_step s)" by (rule same_step_run_step)
  show ?thesis
  proof (cases "run_step stp s")
    case Waiting
    with Returned s1 show ?thesis by (simp add: loop_body_def)
  next
    case (Raised e s2)
    with Returned s1 r show ?thesis by (simp add: loop_body_def same_step_def)
  next
    case (Returned completed s2)
    with \<open>steps_getitem steps (current_step s) s = Returned stp s1\<close> s1 r show ?thesis
      by (simp add: loop_body_def same_step_def)
  qed
qed

lemma automation_loop_mono:
  "post (automation_loop steps s) (\<lambda>s'. current_step s \<le> current_step s')"
proof (induction steps s rule: automation_loop.induct)
  case (1 steps s)
  show ?case
  proof (cases "current_step s < int (length steps) \<and> is_running s")
    case False
    then show ?thesis by (subst automation_loop.simps) auto
  next
    case True
    note b = loop_body_cases [where steps = steps and s = s]
    show ?thesis
    proof (cases "loop_body steps s")
      case Waiting
      with True show ?thesis by (subst automation_loop.simps) simp
    next
      case (Raised e s1)
      with True b show ?thesis by (subst automation_loop.simps) simp
    next
      case (Returned again s1)
      show ?thesis
      proof (cases again)
        case False
        with True b Returned show ?thesis by (subst automation_loop.simps) auto
      next
        case again: True
        with b Returned have "current_step s1 = current_step s + 1" by auto
        moreover from "1.IH" [OF True Returned again]
        have "post (automation_loop steps s1) (\<lambda>s'. current_step s1 \<le> current_step s')" .
        ultimately have "post (automation_loop steps s1) (\<lambda>s'. current_step s \<le> current_step s')"
          by (auto elim!: post_mono)
        with True Returned again show ?thesis by (subst automation_loop.simps) simp
      qed
    qed
  qed
qed

lemma same_step_run_automation:
  "post (automation_loop steps s) (\<lambda>s1. post (run_automation steps s) (same_step s1))"
proof (cases "automation_loop steps s")
  case Waiting
  then show ?thesis by simp
next
  case (Raised e s1)
  let ?s2 = "log_event (lit ''Error occurred'') (Some [(lit ''error'', VStr (exn_str e))])
               (print_message (lit ''Unexpected error: '' @ exn_str e) (lit ''error'') s1)"
  have "run_automation steps s = cleanup ?s2"
    by (simp add: run_automation_def run_automation_except_def run_automation_try_def Raised)
  moreover have "same_step s1 ?s2" by (simp add: same_step_def)
  moreover have "post (cleanup ?s2) (same_step ?s2)"
    by (rule post_mono [OF untouched_cleanup untouched_same_step])
  ultimately have "post (run_automation steps s) (same_step s1)"
    by (simp add: post_same_step_from)
  with Raised show ?thesis by simp
next
  case (Returned u s1)
  let ?s2 = "print_message (127881 # lit '' Automation completed successfully!'') (lit ''success'')
               (log_event (lit ''Automation completed'')
                  (Some [(lit ''total_steps'', VInt (int (length steps)))]) s1)"
  let ?offer = "bind (confirm_ask ?s2) (\<lambda>yes s2. if yes then show_export_options s2 else Returned () s2)"
  have fin: "post (case r of Waiting \<Rightarrow> Waiting
                   | Raised e s1 \<Rightarrow> bind (cleanup s1) (\<lambda>_ s2. Raised e s2)
                   | Returned _ s1 \<Rightarrow> cleanup s1) (same_step a)"
    if "post r (same_step a)" for r :: "unit result" and a
  proof (cases r)
    case Waiting
    then show ?thesis by simp
  next
    case (Raised e s3)
    with that have "same_step a s3" by simp
    moreover have "post (bind (cleanup s3) (\<lambda>_ s2. Raised e s2)) (same_step s3)"
    proof (rule post_bind_same_step)
      show "post (cleanup s3) (same_step s3)"
        by (rule post_mono [OF untouched_cleanup untouched_same_step])
    qed simp
    ultimately have "post (bind (cleanup s3) (\<lambda>_ s2. Raised e s2)) (same_step a)"
      by (rule post_same_step_from)
    with Raised show ?thesis by simp
  next
    case (Returned u s3)
    with that have "same_step a s3" by simp
    moreover have "post (cleanup s3) (same_step s3)"
      by (rule post_mono [OF untouched_cleanup untouched_same_step])
    ultimately have "post (cleanup s3) (same_step a)"
      by (rule post_same_step_from)
    with Returned show ?thesis by simp
  qed
  have exc: "post (case r of Raised e s1 \<Rightarrow>
          Returned ()
            (log_event (lit ''Error occurred'') (Some [(lit ''error'', VStr (exn_str e))])
               (print_message (lit ''Unexpected error: '' @ exn_str e) (lit ''error'') s1))
      | r \<Rightarrow> r) (same_step a)"
    if "post r (same_step a)" for r :: "unit result" and a
    using that by (cases r) (simp_all add: same_step_def)
  have "same_step s1 ?s2" by (simp add: same_step_def)
  moreover have "post ?offer (same_step ?s2)"
    by (intro post_bind_same_step post_mono [OF untouched_confirm_ask untouched_same_step])
       (auto intro: post_mono [OF untouched_show_export_options untouched_same_step])
  ultimately have "post ?offer (same_step s1)"
    by (rule post_same_step_from)
  then have "post (run_automation_try steps s) (same_step s1)"
    by (simp add: run_automation_try_def Returned)
  then have "post (run_automation steps s) (same_step s1)"
    unfolding run_automation_def run_automation_except_def by (intro fin exc)
  with Returned show ?thesis by simp
qed

subsection \<open>The example of the source file\<close>

text \<open>The two steps that the script runs when it is started as a program.\<close>

definition step_1 :: step_dict where
  "step_1 = map_of
     [(lit ''title'', lit ''Initialize System Configuration''),
      (lit ''description'',
         lit ''Setting up necessary configurations and checking prerequisites''),
      (lit ''status'', lit ''Ready to start''),
      (lit ''status_level'', lit ''info''),
      (lit ''help_text'', lit ''This step verifies your system meets all requirements''),
      (lit ''common_issues'',
         lit ''- Missing dependencies'' @ [10] @ lit ''- Insufficient permissions'')]"

definition step_2 :: step_dict where
  "step_2 = map_of
     [(lit ''title'', lit ''Data Preparation''),
      (lit ''description'', lit ''Preparing and validating input data''),
      (lit ''status'', lit ''Waiting for previous step''),
      (lit ''status_level'', lit ''pending''),
      (lit ''help_text'',
         lit ''Ensures all required data is present and correctly formatted''),
      (lit ''common_issues'',
         lit ''- Invalid file format'' @ [10] @ lit ''- Missing required fields'')]"

text \<open>A clock that always shows the same text and a disk that takes every file.\<close>

definition still_clock :: "nat \<Rightarrow> pystr" where
  "still_clock n = lit ''2024-01-01T00:00:00''"

definition good_disk :: "nat \<Rightarrow> pystr option" where
  "good_disk n = None"

definition full_disk :: "nat \<Rightarrow> pystr option" where
  "full_disk n = Some (lit ''[Errno 28] No space left on device'')"

lemma step_1_fields [simp]:
  "step_1 (lit ''title'') = Some (lit ''Initialize System Configuration'')"
  "step_1 (lit ''status'') = Some (lit ''Ready to start'')"
  "step_1 (lit ''description'') =
     Some (lit ''Setting up necessary configurations and checking prerequisites'')"
  by (simp_all add: step_1_def)

lemma step_2_fields [simp]:
  "step_2 (lit ''title'') = Some (lit ''Data Preparation'')"
  "step_2 (lit ''status'') = Some (lit ''Waiting for previous step'')"
  "step_2 (lit ''description'') = Some (lit ''Preparing and validating input data'')"
  by (simp_all add: step_2_def)

section \<open>Properties\<close>

subsection \<open>Messages\<close>


subsection \<open>A failed export\<close>

text \<open>
  Claim C4. When the file system refuses the write, \<^verbatim>\<open>export_logs\<close> returns
  \<open>False\<close>, shows a message of level "error", and appends, after the entry of that
  message, a "Log export failed" entry that carries the text of the error. The running
  flag, the step index and the inputs still to come are as before, so the run goes on.
\<close>

theorem export_logs_write_fails:
  assumes "disk s (exports s) = Some err"
  shows "\<exists>s'. export_logs format s = Returned False s'
     \<and> printed s' = printed s @ [(lit ''error'', lit ''Error exporting logs: '' @ err)]
     \<and> session_logs s' = session_logs s @
          [\<lparr>timestamp = clock s (Suc (ticks s)), event = lit ''Message displayed'',
            step = current_step s + 1,
            details = [(lit ''message'', VStr (lit ''Error exporting logs: '' @ err)),
                       (lit ''level'', VStr (lit ''error''))]\<rparr>,
           \<lparr>timestamp = clock s (Suc (Suc (ticks s))), event = lit ''Log export failed'',
            step = current_step s + 1,
            details = [(lit ''error'', VStr err)]\<rparr>]
     \<and> is_running s' = is_running s
     \<and> current_step s' = current_step s
     \<and> keys s' = keys s \<and> confirms s' = confirms s \<and> choices s' = choices s"
  using assms by (simp add: export_logs_def now_def Let_def)

theorem export_logs_write_fails_witness:
  "\<exists>s'. export_logs (lit ''json'') (init [] [] [] still_clock full_disk) = Returned False s'
     \<and> map event (session_logs s') =
           [lit ''Session started'', lit ''Message displayed'', lit ''Log export failed'']
     \<and> is_running s' \<and> current_step s' = 0"
proof -
  have "disk (init [] [] [] still_clock full_disk) (exports (init [] [] [] still_clock full_disk))
          = Some (lit ''[Errno 28] No space left on device'')"
    by (simp add: init_def full_disk_def)
  from export_logs_write_fails [OF this, of "lit ''json''"] show ?thesis
    by (auto simp add: init_def)
qed

subsection \<open>Keys\<close>

text \<open>
  What \<^verbatim>\<open>check_keyboard_input\<close> makes of every key byte: Enter and the five
  letters, in either case, are actions; the other bytes below 128 are nothing; a byte
  from 128 on raises.
\<close>

lemma check_keyboard_input_byte:
  "check_keyboard_input (Some b) =
     (let n = (of_char b :: nat) in
      if 128 \<le> n then Inl (UnicodeDecodeError b)
      else if n = 13 then Inr (Some (lit ''proceed''))
      else if n = 104 \<or> n = 72 then Inr (Some (lit ''help''))
      else if n = 113 \<or> n = 81 then Inr (Some (lit ''exit''))
      else if n = 108 \<or> n = 76 then Inr (Some (lit ''logs''))
      else if n = 114 \<or> n = 82 then Inr (Some (lit ''retry''))
      else if n = 115 \<or> n = 83 then Inr (Some (lit ''summary''))
      else Inr None)"
  by (simp add: check_keyboard_input_def decode_utf8_def lower_def actions_def lit_def Let_def)

lemma check_keyboard_input_no_key: "check_keyboard_input None = Inr None"
  by (simp add: check_keyboard_input_def)

text \<open>
  Claim C8 says that every key outside the table gives no action and no error. The
  table and the case folding are as the claim has them (lemma
  \<open>check_keyboard_input_byte\<close>), but the byte 224, which \<^verbatim>\<open>msvcrt.getch()\<close>
  returns first for an arrow key, is not UTF-8 on its own: decoding it raises
  \<^verbatim>\<open>UnicodeDecodeError\<close>, and the method raises instead of returning \<open>None\<close>.
\<close>

theorem check_keyboard_input_arrow_key:
  "check_keyboard_input (Some (CHR 0xE0)) = Inl (UnicodeDecodeError (CHR 0xE0))"
  by (simp add: check_keyboard_input_byte)

text \<open>A poll that yields no action is skipped by the wait loop without a trace: the
  loop goes on with the next poll in a state that differs only by the consumed event.\<close>

lemma poll_loop_skips:
  "check_keyboard_input pending = Inr None \<Longrightarrow>
     poll_loop (Poll pending # ks) s = poll_loop ks (s\<lparr>keys := ks\<rparr>)"
  by simp

lemma poll_loop_selects:
  "check_keyboard_input pending = Inr (Some action) \<Longrightarrow>
     poll_loop (Poll pending # ks) s =
       Returned action
         (log_event (lit ''Action selected'') (Some [(lit ''action'', VStr action)])
            (s\<lparr>keys := ks\<rparr>))"
  by simp

text \<open>
  Claim C9 says that a keystroke outside the table produces no action and no log entry
  and that the wait loop goes on polling. For the bytes below 128 that is so (lemma
  \<open>poll_loop_skips\<close>). With the byte 224 of an arrow key in the buffer the loop does not
  go on: \<^verbatim>\<open>show_action_menu\<close> raises, and the Enter key behind it is never read.
\<close>

theorem show_action_menu_arrow_key:
  "show_action_menu (s\<lparr>keys := [Poll (Some (CHR 0xE0)), Poll (Some (CHR 0x0D))]\<rparr>) =
     Raised (UnicodeDecodeError (CHR 0xE0)) (s\<lparr>keys := [Poll (Some (CHR 0x0D))]\<rparr>)"
  by (simp add: show_action_menu_def check_keyboard_input_byte)

subsection \<open>Retrying a step\<close>

text \<open>
  Claim C7. When the menu has returned the action "retry", the round appends four
  entries to the log: the warning message, "Step retry", and one pair "Progress
  started", "Progress completed". None of them is "Step started", the step index is
  as before, and the step stays in its action loop: the loop goes on from the state
  the round has left.
\<close>

theorem retry_dispatch:
  assumes "stp (lit ''title'') = Some title"
    and "show_action_menu s0 = Returned (lit ''retry'') s"
  shows "\<exists>s'. dispatch stp (lit ''retry'') s = Returned None s'
     \<and> action_loop stp s0 = action_loop stp s'
     \<and> current_step s' = current_step s
     \<and> session_logs s' = session_logs s @
          [\<lparr>timestamp = clock s (ticks s), event = lit ''Message displayed'',
            step = current_step s + 1,
            details = [(lit ''message'', VStr (lit ''Retrying step...'')),
                       (lit ''level'', VStr (lit ''warning''))]\<rparr>,
           \<lparr>timestamp = clock s (ticks s + 1), event = lit ''Step retry'',
            step = current_step s + 1,
            details = [(lit ''step_title'', VStr title)]\<rparr>,
           \<lparr>timestamp = clock s (ticks s + 2), event = lit ''Progress started'',
            step = current_step s + 1,
            details = [(lit ''description'', VStr (lit ''Retrying operation...''))]\<rparr>,
           \<lparr>timestamp = clock s (ticks s + 3), event = lit ''Progress completed'',
            step = current_step s + 1,
            details = [(lit ''description'', VStr (lit ''Retrying operation...''))]\<rparr>]"
proof -
  let ?s' = "display_progress (lit ''Retrying operation...'')
               (log_event (lit ''Step retry'') (Some [(lit ''step_title'', VStr title)])
                  (print_message (lit ''Retrying step...'') (lit ''warning'') s))"
  have d: "dispatch stp (lit ''retry'') s = Returned None ?s'"
    using assms(1) by (simp add: dispatch_def getitem_def)
  have "action_loop stp s0 = action_loop stp ?s'"
    by (subst action_loop.simps) (simp add: assms(2) d)
  moreover have "current_step ?s' = current_step s"
    by simp
  moreover have "session_logs ?s' = session_logs s @
          [\<lparr>timestamp = clock s (ticks s), event = lit ''Message displayed'',
            step = current_step s + 1,
            details = [(lit ''message'', VStr (lit ''Retrying step...'')),
                       (lit ''level'', VStr (lit ''warning''))]\<rparr>,
           \<lparr>timestamp = clock s (ticks s + 1), event = lit ''Step retry'',
            step = current_step s + 1,
            details = [(lit ''step_title'', VStr title)]\<rparr>,
           \<lparr>timestamp = clock s (ticks s + 2), event = lit ''Progress started'',
            step = current_step s + 1,
            details = [(lit ''description'', VStr (lit ''Retrying operation...''))]\<rparr>,
           \<lparr>timestamp = clock s (ticks s + 3), event = lit ''Progress completed'',
            step = current_step s + 1,
            details = [(lit ''description'', VStr (lit ''Retrying operation...''))]\<rparr>]"
    by (simp add: numeral_2_eq_2 numeral_3_eq_3)
  ultimately show ?thesis
    using d by simp
qed

theorem retry_dispatch_witness:
  "\<exists>s'. action_loop step_1 (init [Poll (Some CHR ''r'')] [] [] still_clock good_disk)
          = action_loop step_1 s'
     \<and> current_step s' = 0
     \<and> map event (session_logs s') =
          [lit ''Session started'', lit ''Action selected'', lit ''Message displayed'',
           lit ''Step retry'', lit ''Progress started'', lit ''Progress completed'']"
proof -
  let ?start = "init [Poll (Some CHR ''r'')] [] [] still_clock good_disk"
  let ?menu = "log_event (lit ''Action selected'') (Some [(lit ''action'', VStr (lit ''retry''))])
              (?start\<lparr>keys := []\<rparr>)"
  have m: "show_action_menu ?start = Returned (lit ''retry'') ?menu"
    by (simp add: show_action_menu_def init_def check_keyboard_input_byte)
  from retry_dispatch [where stp = step_1, OF step_1_fields(1) m] show ?thesis
    by (auto simp add: init_def)
qed

subsection \<open>The step index\<close>



subsection \<open>Leaving at the first step\<close>

lemma started_steps_view:
  "map step (filter (\<lambda>e. event e = x) es) =
     map (\<lambda>v. fst (snd v)) (filter (\<lambda>v. fst v = x) (map entry_view es))"
  by (induction es) (simp_all add: entry_view_def)

lemma quiet_started:
  assumes "quiet s s'"
  shows "filter (\<lambda>e. event e = lit ''Step started'') (session_logs s') =
         filter (\<lambda>e. event e = lit ''Step started'') (session_logs s)"
proof -
  from assms obtain new where n: "session_logs s' = session_logs s @ new"
    and "lit ''Step started'' \<notin> event ` set new"
    unfolding quiet_def by blast
  then have "filter (\<lambda>e. event e = lit ''Step started'') new = []"
    by (force simp add: filter_empty_conv)
  with n show ?thesis by simp
qed



subsection \<open>Proceeding through both steps\<close>




subsection \<open>The cleanup\<close>

text \<open>Two states are \<open>calm\<close> when the closing message has been printed equally often
  in both and the same keyboard events are pending.\<close>

definition calm :: "state \<Rightarrow> state \<Rightarrow> bool" where
  "calm s s' \<longleftrightarrow> cleanups s' = cleanups s \<and> keys s' = keys s"

lemma calm_refl [simp]: "calm s s"
  by (simp add: calm_def)

lemma calm_trans: "calm s s1 \<Longrightarrow> calm s1 s2 \<Longrightarrow> calm s s2"
  by (simp add: calm_def)

lemma post_bind_calm:
  "post r (calm s) \<Longrightarrow> (\<And>x s1. r = Returned x s1 \<Longrightarrow> post (f x s1) (calm s1))
     \<Longrightarrow> post (bind r f) (calm s)"
  by (rule post_bind [where R = calm]) (auto intro: calm_trans)

lemma post_calm_from: "calm s s0 \<Longrightarrow> post r (calm s0) \<Longrightarrow> post r (calm s)"
  by (cases r) (auto intro: calm_trans)

lemma not_closing_message:
  "of_char c \<noteq> (67::nat) \<Longrightarrow> lit (c # cs) @ x \<noteq> lit ''Cleanup completed''"
  "of_char c \<noteq> (67::nat) \<Longrightarrow> lit (c # cs) \<noteq> lit ''Cleanup completed''"
  "127881 # y \<noteq> lit ''Cleanup completed''"
  by (simp_all add: lit_def)

lemma cleanups_log_event [simp]: "cleanups (log_event ev d s) = cleanups s"
  by (simp add: cleanups_def)

lemma cleanups_print_message:
  "cleanups (print_message m l s) = (if m = lit ''Cleanup completed'' then Suc (cleanups s) else cleanups s)"
  by (simp add: cleanups_def)

lemma calm_log_event [simp]: "calm s (log_event ev d s)"
  by (simp add: calm_def)

lemma calm_print_message: "m \<noteq> lit ''Cleanup completed'' \<Longrightarrow> calm s (print_message m l s)"
  by (simp add: calm_def cleanups_print_message)

lemma calm_display_progress [simp]: "calm s (display_progress d s)"
  by (simp add: calm_def cleanups_def)

lemma calm_getitem: "post (getitem stp k s) (calm s)"
  by (simp add: getitem_def split: option.splits)

lemma calm_confirm_ask: "post (confirm_ask s) (calm s)"
  by (simp add: confirm_ask_def calm_def cleanups_def split: list.splits)

lemma calm_prompt_ask: "post (prompt_ask s) (calm s)"
  by (simp add: prompt_ask_def calm_def cleanups_def split: list.splits)

lemma calm_export_logs: "post (export_logs f s) (calm s)"
  by (simp add: export_logs_def now_def Let_def calm_def cleanups_print_message cleanups_def
      not_closing_message split: option.splits)


lemma calm_show_export_options: "post (show_export_options s) (calm s)"
  unfolding show_export_options_def
  by (intro post_bind_calm calm_prompt_ask calm_export_logs) simp

lemma calm_display_help: "post (display_help stp s) (calm s)"
  unfolding display_help_def
  by (intro post_bind_calm calm_getitem) simp_all

lemma calm_create_step_panel: "post (create_step_panel stp s) (calm s)"
  unfolding create_step_panel_def
  by (intro post_bind_calm calm_getitem) simp_all

lemma calm_dispatch: "post (dispatch stp action s) (calm s)"
proof -
  have "post (getitem stp k (print_message m l s0)) (calm s0)"
    if "m \<noteq> lit ''Cleanup completed''" for k m l s0
    by (rule post_calm_from [OF calm_print_message calm_getitem]) (rule that)
  moreover have "calm s1 (display_progress d (log_event ev x s1))" for d ev x s1
    by (rule calm_trans [OF calm_log_event calm_display_progress])
  moreover have "calm s1 (log_event ev None (print_message m l s1))"
    if "m \<noteq> lit ''Cleanup completed''" for ev m l s1
    by (rule calm_trans [OF calm_print_message calm_log_event]) (rule that)
  ultimately show ?thesis
    unfolding dispatch_def
    by (auto intro!: post_bind_calm calm_getitem calm_display_help
        calm_show_export_options calm_confirm_ask simp add: not_closing_message)
qed

text \<open>The cleanup itself prints the closing message once.\<close>

lemma cleanup_counts: "post (cleanup s) (\<lambda>s'. cleanups s' = Suc (cleanups s) \<and> keys s' = keys s)"
proof -
  let ?offer = "if session_logs s \<noteq> [] then
             bind (confirm_ask s) (\<lambda>yes s1.
               if yes then show_export_options s1 else Returned () s1)
           else Returned () s"
  have o: "post ?offer (calm s)"
    by (auto intro!: post_bind_calm calm_confirm_ask calm_show_export_options)
  show ?thesis
  proof (cases ?offer)
    case Waiting
    then show ?thesis by (simp add: cleanup_def)
  next
    case (Raised e s1)
    with o have "calm s s1" by simp
    moreover have "False"
      using Raised
      by (auto simp add: confirm_ask_def show_export_options_def prompt_ask_def export_logs_def
          bind_def Let_def now_def split: if_splits list.splits result.splits option.splits)
    ultimately show ?thesis by simp
  next
    case (Returned u s1)
    with o have "calm s s1" by simp
    with Returned show ?thesis
      by (simp add: cleanup_def calm_def cleanups_print_message)
  qed
qed


text \<open>As long as no signal is among the keyboard events to come, nothing before the
  \<^verbatim>\<open>finally\<close> clause prints the closing message.\<close>

definition settled :: "state \<Rightarrow> state \<Rightarrow> bool" where
  "settled s s' \<longleftrightarrow>
     (Signal \<notin> set (keys s) \<longrightarrow> cleanups s' = cleanups s \<and> Signal \<notin> set (keys s'))"

lemma settled_refl [simp]: "settled s s"
  by (simp add: settled_def)

lemma settled_trans: "settled s s1 \<Longrightarrow> settled s1 s2 \<Longrightarrow> settled s s2"
  by (simp add: settled_def)

lemma calm_settled: "calm s s' \<Longrightarrow> settled s s'"
  by (simp add: calm_def settled_def)

lemma post_bind_settled:
  "post r (settled s) \<Longrightarrow> (\<And>x s1. r = Returned x s1 \<Longrightarrow> post (f x s1) (settled s1))
     \<Longrightarrow> post (bind r f) (settled s)"
  by (rule post_bind [where R = settled]) (auto intro: settled_trans)

lemma post_settled_from: "settled s s0 \<Longrightarrow> post r (settled s0) \<Longrightarrow> post r (settled s)"
  by (cases r) (auto intro: settled_trans)

lemma post_calm_settled: "post r (calm s) \<Longrightarrow> post r (settled s)"
  by (erule post_mono) (rule calm_settled)

lemma poll_loop_settled:
  "post (poll_loop ks s)
     (\<lambda>s'. Signal \<notin> set ks \<longrightarrow> cleanups s' = cleanups s \<and> Signal \<notin> set (keys s'))"
proof (induction ks s rule: poll_loop.induct)
  case (1 s)
  show ?case by simp
next
  case (2 ks s)
  show ?case
    by (cases "poll_loop (Signal # ks) s") simp_all
next
  case (3 pending ks s)
  show ?case
  proof (cases "check_keyboard_input pending")
    case (Inl e)
    then show ?thesis by (simp add: cleanups_def)
  next
    case (Inr found)
    show ?thesis
    proof (cases found)
      case None
      with Inr "3.IH" [of found] show ?thesis
        by (cases "poll_loop ks s") (auto simp add: cleanups_def)
    next
      case (Some action)
      with Inr show ?thesis
        by (simp add: cleanups_def)
    qed
  qed
qed

lemma settled_show_action_menu: "post (show_action_menu s) (settled s)"
  unfolding show_action_menu_def settled_def by (rule poll_loop_settled)

lemma settled_action_loop: "post (action_loop stp s) (settled s)"
proof (induction stp s rule: action_loop.induct)
  case (1 stp s)
  show ?case
  proof (subst action_loop.simps, intro post_bind_settled settled_show_action_menu)
    fix action s1
    assume "show_action_menu s = Returned action s1"
    show "post (dispatch stp action s1) (settled s1)"
      by (rule post_calm_settled [OF calm_dispatch])
  next
    fix action s1 returns s2
    assume "show_action_menu s = Returned action s1"
      and "dispatch stp action s1 = Returned returns s2"
    then show "post (case returns of Some b \<Rightarrow> Returned b s2 | None \<Rightarrow> action_loop stp s2)
                 (settled s2)"
      using "1.IH" by (cases returns) auto
  qed
qed

lemma settled_run_step: "post (run_step stp s) (settled s)"
proof -
  have 1: "post (getitem stp k (display_header s0)) (settled s0)" for k s0
    by (rule post_settled_from [OF _ post_calm_settled [OF calm_getitem]])
       (simp add: display_header_def calm_settled)
  have 2: "post (create_step_panel stp (log_event ev d s0)) (settled s0)" for ev d s0
    by (rule post_settled_from [OF _ post_calm_settled [OF calm_create_step_panel]])
       (simp add: calm_settled)
  have 3: "post (action_loop stp (display_progress x s0)) (settled s0)" for x s0
    by (rule post_settled_from [OF _ settled_action_loop]) (simp add: calm_settled)
  show ?thesis
    unfolding run_step_def
    by (intro post_bind_settled 1 2 3 post_calm_settled [OF calm_getitem])
qed

lemma settled_loop_body: "post (loop_body steps s) (settled s)"
proof -
  have "post (steps_getitem steps i s) (settled s)" for i
    by (simp add: steps_getitem_def)
  moreover have "settled s2 (s2\<lparr>current_step := current_step s2 + 1\<rparr>)" for s2
    by (simp add: settled_def cleanups_def)
  ultimately show ?thesis
    unfolding loop_body_def
    by (intro post_bind_settled settled_run_step) auto
qed

lemma settled_automation_loop: "post (automation_loop steps s) (settled s)"
proof (induction steps s rule: automation_loop.induct)
  case (1 steps s)
  show ?case
  proof (cases "current_step s < int (length steps) \<and> is_running s")
    case False
    then show ?thesis by (subst automation_loop.simps) auto
  next
    case True
    have "post (bind (loop_body steps s) (\<lambda>again s1.
          if again then automation_loop steps s1 else Returned () s1)) (settled s)"
    proof (intro post_bind_settled settled_loop_body)
      fix again s1
      assume "loop_body steps s = Returned again s1"
      with "1.IH" [OF True] show "post (if again then automation_loop steps s1 else Returned () s1)
              (settled s1)"
        by (cases again) auto
    qed
    with True show ?thesis by (subst automation_loop.simps) simp
  qed
qed

lemma settled_run_automation_try: "post (run_automation_try steps s) (settled s)"
proof -
  have "post (confirm_ask (print_message (127881 # y) l (log_event ev d s1))) (settled s1)"
    for y l ev d s1
    by (rule post_settled_from [OF _ post_calm_settled [OF calm_confirm_ask]])
       (auto intro!: calm_settled calm_trans [OF calm_log_event calm_print_message]
          simp add: not_closing_message)
  then show ?thesis
    unfolding run_automation_try_def
    by (intro post_bind_settled settled_automation_loop)
       (auto intro!: post_bind_settled post_calm_settled [OF calm_show_export_options])
qed

lemma settled_run_automation_except: "post (run_automation_except steps s) (settled s)"
proof (cases "run_automation_try steps s")
  case Waiting
  then show ?thesis by (simp add: run_automation_except_def)
next
  case (Raised e s1)
  with settled_run_automation_try [of steps s] have "settled s s1"
    by simp
  moreover have "calm s1 (log_event ev d (print_message (lit ''Unexpected error: '' @ x) l s1))"
    for ev d x l
    by (rule calm_trans [OF calm_print_message calm_log_event]) (simp add: not_closing_message)
  then have "settled s1 (log_event (lit ''Error occurred'')
           (Some [(lit ''error'', VStr (exn_str e))])
           (print_message (lit ''Unexpected error: '' @ exn_str e) (lit ''error'') s1))"
    by (rule calm_settled)
  ultimately have "settled s (log_event (lit ''Error occurred'')
           (Some [(lit ''error'', VStr (exn_str e))])
           (print_message (lit ''Unexpected error: '' @ exn_str e) (lit ''error'') s1))"
    by (rule settled_trans)
  with Raised show ?thesis
    by (simp add: run_automation_except_def)
next
  case (Returned u s1)
  with settled_run_automation_try [of steps s] show ?thesis
    by (simp add: run_automation_except_def)
qed

text \<open>Without a signal the closing message is printed once by \<^verbatim>\<open>run_automation\<close>,
  however the run ends: all steps completed, the exit confirmed, or an exception
  caught.\<close>

lemma cleanup_once_without_signal:
  assumes "Signal \<notin> set (keys s)"
  shows "post (run_automation steps s) (\<lambda>s'. cleanups s' = Suc (cleanups s))"
proof (cases "run_automation_except steps s")
  case Waiting
  then show ?thesis by (simp add: run_automation_def)
next
  case (Raised e s1)
  then have False
    by (simp add: run_automation_except_def split: result.splits)
  then show ?thesis ..
next
  case (Returned u s1)
  with settled_run_automation_except [of steps s] assms have "cleanups s1 = cleanups s"
    by (simp add: settled_def)
  with cleanup_counts [of s1] have "post (cleanup s1) (\<lambda>s'. cleanups s' = Suc (cleanups s))"
    by (auto elim!: post_mono)
  with Returned show ?thesis
    by (simp add: run_automation_def)
qed

text \<open>
  Claim C1 says that the cleanup runs exactly once on every way out of
  \<^verbatim>\<open>run_automation\<close>. When a signal arrives while the action menu of the first
  step waits, \<^verbatim>\<open>handle_interrupt\<close> runs the cleanup in the handler; the menu then
  goes on waiting, the operator presses Enter, the main loop sees the cleared running
  flag and ends, and the \<^verbatim>\<open>finally\<close> clause runs the cleanup again. The operator
  is asked twice whether to save the log (and declines twice below), and the closing
  message is printed twice.
\<close>

theorem cleanup_twice_after_signal:
  "returns (run_automation [step_1, step_2]
              (init [Signal, Poll (Some (CHR 0x0D))] [False, False] [] still_clock good_disk))
     (\<lambda>_ s'.
        cleanups s' = 2
        \<and> confirms s' = []
        \<and> map event (session_logs s') =
          [lit ''Session started'', lit ''Header displayed'', lit ''Step started'',
           lit ''Progress started'', lit ''Progress completed'',
           lit ''Message displayed'', lit ''Message displayed'',
           lit ''Action selected'', lit ''Message displayed'', lit ''Step completed'',
           lit ''Message displayed'']
        \<and> map snd (printed s') =
          [10 # lit ''Gracefully shutting down...'', lit ''Cleanup completed'',
           lit ''Step '' @ [39] @ lit ''Initialize System Configuration'' @ [39]
             @ lit '' completed'',
           lit ''Cleanup completed''])"
  by (simp add: run_defs init_def check_keyboard_input_byte cleanups_def)
     (simp add: lit_def)

text \<open>Three runs without a signal, as lemma \<open>cleanup_once_without_signal\<close> has them: both
  steps completed, the exit confirmed at the first step, and an unexpected failure (an
  arrow key).\<close>

lemma cleanup_once_examples:
  "returns (run_automation [step_1, step_2]
              (init [Poll (Some (CHR 0x0D)), Poll (Some (CHR 0x0D))] [False, False] []
                 still_clock good_disk))
     (\<lambda>_ s'. cleanups s' = 1)"
  "returns (run_automation [step_1, step_2]
              (init [Poll (Some CHR ''q'')] [True, False] [] still_clock good_disk))
     (\<lambda>_ s'. cleanups s' = 1)"
  "returns (run_automation [step_1, step_2]
              (init [Poll (Some (CHR 0xE0))] [False] [] still_clock good_disk))
     (\<lambda>_ s'. cleanups s' = 1)"
  by (simp_all add: run_defs init_def check_keyboard_input_byte cleanups_def)
     (simp_all add: lit_def exn_str_def)

section \<open>The JSON rendering of the log\<close>

text \<open>
  \<^verbatim>\<open>_format_logs_as_json\<close> hands the session start time and the list of log entries
  to \<^verbatim>\<open>json.dumps\<close> with \<^verbatim>\<open>indent=2\<close>. This section models the encoder and the
  decoder of Python's \<^verbatim>\<open>json\<close> module on the values a log holds: texts, integers,
  lists, and dicts with text keys (in insertion order).
\<close>

datatype json = JStr pystr | JInt int | JList "json list" | JDict "(pystr \<times> json) list"

subsection \<open>Texts\<close>

text \<open>
  The encoder writes ASCII only (\<^verbatim>\<open>ensure_ascii\<close>): printable ASCII stays, the
  quote, the backslash and five control characters get their short escapes, every other
  code point below 65536 becomes \<^verbatim>\<open>\uXXXX\<close> with four lower-case hex digits, and a
  code point from 65536 on becomes a pair of surrogates, each written that way.
\<close>

definition hex4 :: "nat \<Rightarrow> pystr" where
  "hex4 n = [hex_digit (n div 4096 mod 16), hex_digit (n div 256 mod 16),
             hex_digit (n div 16 mod 16), hex_digit (n mod 16)]"

definition escape_char :: "nat \<Rightarrow> pystr" where
  "escape_char c =
     (if c = 34 then [92, 34]
      else if c = 92 then [92, 92]
      else if c = 10 then [92, 110]
      else if c = 13 then [92, 114]
      else if c = 9 then [92, 116]
      else if c = 8 then [92, 98]
      else if c = 12 then [92, 102]
      else if 32 \<le> c \<and> c \<le> 126 then [c]
      else if c < 65536 then [92, 117] @ hex4 c
      else [92, 117] @ hex4 (55296 + (c - 65536) div 1024 mod 1024)
         @ [92, 117] @ hex4 (56320 + (c - 65536) mod 1024))"

definition encode_string :: "pystr \<Rightarrow> pystr" where
  "encode_string s = 34 # concat (map escape_char s) @ [34]"

text \<open>
  The decoder, after the opening quote: \<open>scanstring\<close> collects code points up to the
  closing quote. An unescaped control character is refused. After \<^verbatim>\<open>\u\<close> come four
  hex digits; a high surrogate followed at once by an escaped low surrogate is joined
  with it into one code point.
\<close>

definition unhex :: "nat \<Rightarrow> nat option" where
  "unhex c =
     (if 48 \<le> c \<and> c \<le> 57 then Some (c - 48)
      else if 97 \<le> c \<and> c \<le> 102 then Some (c - 87)
      else if 65 \<le> c \<and> c \<le> 70 then Some (c - 55)
      else None)"

fun decode_uXXXX :: "pystr \<Rightarrow> nat option" where
  "decode_uXXXX (a # b # c # d # rest) =
     (case (unhex a, unhex b, unhex c, unhex d) of
        (Some x, Some y, Some z, Some w) \<Rightarrow> Some (x * 4096 + y * 256 + z * 16 + w)
      | _ \<Rightarrow> None)"
| "decode_uXXXX _ = None"

text \<open>What follows a backslash: the code point it stands for and the rest of the text.\<close>

definition scan_escape :: "pystr \<Rightarrow> (nat \<times> pystr) option" where
  "scan_escape cs = (case cs of
      [] \<Rightarrow> None
    | e # es \<Rightarrow>
        if e = 117 then
          (case decode_uXXXX es of
             None \<Rightarrow> None
           | Some uni \<Rightarrow>
               if 55296 \<le> uni \<and> uni \<le> 56319 \<and> take 2 (drop 4 es) = [92, 117] then
                 (case decode_uXXXX (drop 6 es) of
                    None \<Rightarrow> None
                  | Some uni2 \<Rightarrow>
                      if 56320 \<le> uni2 \<and> uni2 \<le> 57343
                      then Some (65536 + (uni - 55296) * 1024 + (uni2 - 56320), drop 10 es)
                      else Some (uni, drop 4 es))
               else Some (uni, drop 4 es))
        else if e = 34 then Some (34, es)
        else if e = 92 then Some (92, es)
        else if e = 47 then Some (47, es)
        else if e = 98 then Some (8, es)
        else if e = 102 then Some (12, es)
        else if e = 110 then Some (10, es)
        else if e = 114 then Some (13, es)
        else if e = 116 then Some (9, es)
        else None)"

lemma scan_escape_shorter:
  assumes "scan_escape cs = Some (u, rest)"
  shows "length rest < length cs"
proof (cases cs)
  case Nil
  with assms show ?thesis by (simp add: scan_escape_def)
next
  case (Cons e es)
  show ?thesis
  proof (cases "e = 117")
    case True
    with assms Cons have "rest = drop 4 es \<or> rest = drop 10 es"
      by (simp add: scan_escape_def split: option.splits if_splits)
    with Cons show ?thesis by auto
  next
    case False
    with assms Cons have "rest = es"
      by (simp add: scan_escape_def split: if_splits)
    with Cons show ?thesis by simp
  qed
qed

function scanstring :: "pystr \<Rightarrow> pystr \<Rightarrow> (pystr \<times> pystr) option" where
  "scanstring [] chunks = None"
| "scanstring (c # cs) chunks =
     (if c = 34 then Some (chunks, cs)
      else if c = 92 then
        (case scan_escape cs of
           None \<Rightarrow> None
         | Some (u, rest) \<Rightarrow> scanstring rest (chunks @ [u]))
      else if c < 32 then None
      else scanstring cs (chunks @ [c]))"
  by pat_completeness auto
termination
proof (relation "measure (\<lambda>(s, chunks). length s)")
  show "wf (measure (\<lambda>(s, chunks). length s))"
    by simp
next
  fix c :: nat and cs chunks :: pystr and x2 u rest
  assume "scan_escape cs = Some x2" and "(u, rest) = x2"
  then have "length rest < length cs"
    by (auto intro: scan_escape_shorter)
  then show "((rest, chunks @ [u]), c # cs, chunks) \<in> measure (\<lambda>(s, chunks). length s)"
    by simp
next
  fix c :: nat and cs chunks :: pystr
  show "((cs, chunks @ [c]), c # cs, chunks) \<in> measure (\<lambda>(s, chunks). length s)"
    by simp
qed

text \<open>Well-formed text: Unicode scalar values only, that is code points below 1114112
  that are not surrogates.\<close>

definition wf_text :: "pystr \<Rightarrow> bool" where
  "wf_text s = list_all (\<lambda>c. c < 1114112 \<and> \<not> (55296 \<le> c \<and> c \<le> 57343)) s"

lemma unhex_hex_digit: "d < 16 \<Longrightarrow> unhex (hex_digit d) = Some d"
  by (simp add: unhex_def hex_digit_def)

lemma hex_digits_value:
  assumes "(n::nat) < 65536"
  shows "n div 4096 mod 16 * 4096 + n div 256 mod 16 * 256 + n div 16 mod 16 * 16 + n mod 16 = n"
proof -
  have a: "n mod 256 = 16 * (n div 16 mod 16) + n mod 16"
    using mod_mult2_eq [of n 16 16] by simp
  have b: "n mod 4096 = 256 * (n div 256 mod 16) + n mod 256"
    using mod_mult2_eq [of n 256 16] by simp
  have c: "n mod 65536 = 4096 * (n div 4096 mod 16) + n mod 4096"
    using mod_mult2_eq [of n 4096 16] by simp
  from assms have "n mod 65536 = n"
    by simp
  with a b c show ?thesis
    by simp
qed

lemma decode_hex4: "n < 65536 \<Longrightarrow> decode_uXXXX (hex4 n @ rest) = Some n"
  using hex_digits_value [of n] by (simp add: hex4_def unhex_hex_digit)

lemma length_hex4 [simp]: "length (hex4 n) = 4"
  by (simp add: hex4_def)

lemma scan_escape_u:
  assumes "n < 65536" and "\<not> (55296 \<le> n \<and> n \<le> 56319)"
  shows "scan_escape (117 # hex4 n @ rest) = Some (n, rest)"
  using assms by (auto simp add: scan_escape_def decode_hex4)

lemma scan_escape_pair:
  assumes "55296 \<le> hi" and "hi \<le> 56319" and "56320 \<le> lo" and "lo \<le> 57343"
  shows "scan_escape (117 # hex4 hi @ [92, 117] @ hex4 lo @ rest) =
           Some (65536 + (hi - 55296) * 1024 + (lo - 56320), rest)"
proof -
  have "decode_uXXXX (hex4 hi @ [92, 117] @ hex4 lo @ rest) = Some hi"
    using assms by (intro decode_hex4) simp
  moreover have "decode_uXXXX (hex4 lo @ rest) = Some lo"
    using assms by (intro decode_hex4) simp
  ultimately show ?thesis
    using assms by (simp add: scan_escape_def)
qed

lemma scanstring_escape:
  assumes "c < 1114112" and "\<not> (55296 \<le> c \<and> c \<le> 57343)"
  shows "scanstring (escape_char c @ rest) chunks = scanstring rest (chunks @ [c])"
proof -
  consider (short) "c = 34 \<or> c = 92 \<or> c = 10 \<or> c = 13 \<or> c = 9 \<or> c = 8 \<or> c = 12"
    | (plain) "32 \<le> c" "c \<le> 126" "c \<noteq> 34" "c \<noteq> 92"
    | (u) "\<not> (32 \<le> c \<and> c \<le> 126)" "c < 65536"
          "c \<noteq> 10" "c \<noteq> 13" "c \<noteq> 9" "c \<noteq> 8" "c \<noteq> 12"
    | (pair) "65536 \<le> c"
    by linarith
  then show ?thesis
  proof cases
    case short
    then show ?thesis
      by (auto simp add: escape_char_def scan_escape_def)
  next
    case plain
    then show ?thesis
      by (simp add: escape_char_def)
  next
    case u
    with assms have "scan_escape (117 # hex4 c @ rest) = Some (c, rest)"
      by (intro scan_escape_u) auto
    with u show ?thesis
      by (auto simp add: escape_char_def)
  next
    case pair
    let ?v = "c - 65536"
    from pair assms have v: "?v div 1024 < 1024"
      by simp
    then have m: "?v div 1024 mod 1024 = ?v div 1024"
      by simp
    have "scan_escape (117 # hex4 (55296 + ?v div 1024) @ [92, 117] @ hex4 (56320 + ?v mod 1024) @ rest)
            = Some (65536 + (55296 + ?v div 1024 - 55296) * 1024 + (56320 + ?v mod 1024 - 56320), rest)"
      using v by (intro scan_escape_pair) simp_all
    moreover have "65536 + (55296 + ?v div 1024 - 55296) * 1024 + (56320 + ?v mod 1024 - 56320) = c"
      using pair by simp
    ultimately have "scan_escape (117 # hex4 (55296 + ?v div 1024) @ [92, 117]
                        @ hex4 (56320 + ?v mod 1024) @ rest) = Some (c, rest)"
      by simp
    with pair m show ?thesis
      by (simp add: escape_char_def)
  qed
qed

lemma scanstring_body:
  "wf_text s \<Longrightarrow>
     scanstring (concat (map escape_char s) @ 34 # rest) chunks = Some (chunks @ s, rest)"
proof (induction s arbitrary: chunks)
  case Nil
  show ?case by simp
next
  case (Cons c s)
  then have "c < 1114112" "\<not> (55296 \<le> c \<and> c \<le> 57343)" "wf_text s"
    by (simp_all add: wf_text_def)
  with Cons.IH [of "chunks @ [c]"] show ?case
    by (simp add: scanstring_escape)
qed

text \<open>Lone surrogates that happen to form a pair come back as one code point.\<close>

lemma surrogates_merge:
  "scanstring (concat (map escape_char [55356, 57225]) @ 34 # rest) [] = Some ([127881], rest)"
  by (simp add: escape_char_def hex4_def hex_digit_def scan_escape_def unhex_def)


subsection \<open>Integers\<close>

text \<open>An integer is written in decimal. Reading a number takes an optional minus sign,
  then a single zero or a digit string without leading zero; when a fraction or an
  exponent follows, the number is a float, which this model does not hold.\<close>

function to_digits :: "nat \<Rightarrow> pystr" where
  "to_digits n = (if n < 10 then [48 + n] else to_digits (n div 10) @ [48 + n mod 10])"
  by pat_completeness auto
termination
  by (relation "measure id") simp_all

declare to_digits.simps [simp del]

definition int_repr :: "int \<Rightarrow> pystr" where
  "int_repr i = (if i < 0 then 45 # to_digits (nat (- i)) else to_digits (nat i))"

definition is_digit :: "nat \<Rightarrow> bool" where
  "is_digit c \<longleftrightarrow> 48 \<le> c \<and> c \<le> 57"

definition digits_value :: "pystr \<Rightarrow> nat" where
  "digits_value ds = foldl (\<lambda>a d. 10 * a + (d - 48)) 0 ds"

text \<open>Whether the text after the integer part makes the number a float: a point and a
  digit, or an exponent mark, an optional sign and a digit.\<close>

definition is_float :: "pystr \<Rightarrow> bool" where
  "is_float rest = (case rest of
      [] \<Rightarrow> False
    | c # r \<Rightarrow>
        if c = 46 then (case r of [] \<Rightarrow> False | d # _ \<Rightarrow> is_digit d)
        else if c = 101 \<or> c = 69 then
          (case r of
             [] \<Rightarrow> False
           | d # r' \<Rightarrow>
               if d = 43 \<or> d = 45 then (case r' of [] \<Rightarrow> False | d' # _ \<Rightarrow> is_digit d')
               else is_digit d)
        else False)"

definition int_part :: "pystr \<Rightarrow> (pystr \<times> pystr) option" where
  "int_part s = (case s of
      [] \<Rightarrow> None
    | d # r \<Rightarrow>
        if 49 \<le> d \<and> d \<le> 57 then Some (d # takeWhile is_digit r, dropWhile is_digit r)
        else if d = 48 then Some ([48], r)
        else None)"

definition match_number :: "pystr \<Rightarrow> (int \<times> pystr) option" where
  "match_number s =
     (let negative = (s \<noteq> [] \<and> hd s = 45);
          body = (if negative then tl s else s)
      in case int_part body of
           None \<Rightarrow> None
         | Some (ds, rest) \<Rightarrow>
             if is_float rest then None
             else Some (if negative then - int (digits_value ds) else int (digits_value ds), rest))"

definition ok_rest :: "pystr \<Rightarrow> bool" where
  "ok_rest rest = (case rest of [] \<Rightarrow> True | c # _ \<Rightarrow> c = 10 \<or> c = 44)"

lemma to_digits_all: "list_all is_digit (to_digits n)"
proof (induction n rule: to_digits.induct)
  case (1 n)
  show ?case
  proof (cases "n < 10")
    case True
    then show ?thesis by (subst to_digits.simps) (simp add: is_digit_def)
  next
    case False
    have "n mod 10 < 10" by simp
    then have "is_digit (48 + n mod 10)" unfolding is_digit_def by linarith
    with False "1.IH" show ?thesis by (subst to_digits.simps) simp
  qed
qed

lemma digits_value_snoc: "digits_value (ds @ [d]) = 10 * digits_value ds + (d - 48)"
  by (simp add: digits_value_def)

lemma digits_value_to_digits: "digits_value (to_digits n) = n"
proof (induction n rule: to_digits.induct)
  case (1 n)
  show ?case
  proof (cases "n < 10")
    case True
    then show ?thesis by (subst to_digits.simps) (simp add: digits_value_def)
  next
    case False
    with "1.IH" show ?thesis
      by (subst to_digits.simps) (simp add: digits_value_snoc)
  qed
qed

lemma to_digits_head:
  "\<exists>d ds. to_digits n = d # ds \<and> is_digit d \<and> (d = 48 \<longrightarrow> n = 0 \<and> ds = [])"
proof (induction n rule: to_digits.induct)
  case (1 n)
  show ?case
  proof (cases "n < 10")
    case True
    then show ?thesis by (subst to_digits.simps) (auto simp add: is_digit_def)
  next
    case False
    then have "n div 10 \<noteq> 0" by simp
    with "1.IH" [OF False] obtain d ds where "to_digits (n div 10) = d # ds" "is_digit d" "d \<noteq> 48"
      by auto
    with False show ?thesis by (subst to_digits.simps) simp
  qed
qed

lemma int_part_to_digits:
  assumes "ok_rest rest"
  shows "int_part (to_digits n @ rest) = Some (to_digits n, rest)"
proof -
  from to_digits_head [of n] obtain d ds where t: "to_digits n = d # ds" and d: "is_digit d"
    and z: "d = 48 \<longrightarrow> n = 0 \<and> ds = []"
    by blast
  from to_digits_all [of n] t have a: "list_all is_digit ds"
    by simp
  from assms have r: "takeWhile is_digit rest = []" "dropWhile is_digit rest = rest"
    by (cases rest; auto simp add: ok_rest_def is_digit_def)+
  from a have "takeWhile is_digit (ds @ rest) = ds @ takeWhile is_digit rest"
    by (simp add: takeWhile_append2 list_all_iff)
  moreover from a have "dropWhile is_digit (ds @ rest) = dropWhile is_digit rest"
    by (simp add: dropWhile_append2 list_all_iff)
  ultimately show ?thesis
    using t d z r by (auto simp add: int_part_def is_digit_def)
qed

lemma to_digits_not_minus: "to_digits n \<noteq> [] \<and> hd (to_digits n) \<noteq> 45"
  using to_digits_head [of n] by (auto simp add: is_digit_def)

lemma match_number_int_repr:
  assumes "ok_rest rest"
  shows "match_number (int_repr i @ rest) = Some (i, rest)"
proof -
  from assms have f: "\<not> is_float rest"
    by (cases rest) (auto simp add: ok_rest_def is_float_def)
  show ?thesis
  proof (cases "i < 0")
    case True
    then show ?thesis
      using f by (simp add: match_number_def int_repr_def int_part_to_digits [OF assms]
          digits_value_to_digits)
  next
    case False
    then show ?thesis
      using f to_digits_not_minus [of "nat i"]
      by (simp add: match_number_def int_repr_def int_part_to_digits [OF assms]
          digits_value_to_digits)
  qed
qed


subsection \<open>Documents\<close>

text \<open>
  With \<^verbatim>\<open>indent=2\<close> every item of a non-empty list or dict goes on a line of its
  own, indented by two spaces per level; items are separated by a comma, a key and its
  value by a colon and a space. The decoder takes a number of nested calls it may make
  (\<^verbatim>\<open>loads\<close> gives it the length of the text, which is always enough).
\<close>

definition newline_indent :: "nat \<Rightarrow> pystr" where
  "newline_indent level = 10 # replicate (2 * level) 32"

fun encode :: "nat \<Rightarrow> json \<Rightarrow> pystr"
  and encode_items :: "nat \<Rightarrow> json list \<Rightarrow> pystr"
  and encode_pairs :: "nat \<Rightarrow> (pystr \<times> json) list \<Rightarrow> pystr" where
  "encode level (JStr s) = encode_string s"
| "encode level (JInt i) = int_repr i"
| "encode level (JList xs) =
     (if xs = [] then [91, 93]
      else 91 # newline_indent (Suc level) @ encode_items (Suc level) xs
           @ newline_indent level @ [93])"
| "encode level (JDict kvs) =
     (if kvs = [] then [123, 125]
      else 123 # newline_indent (Suc level) @ encode_pairs (Suc level) kvs
           @ newline_indent level @ [125])"
| "encode_items level [] = []"
| "encode_items level (x # xs) =
     (if xs = [] then encode level x
      else encode level x @ 44 # newline_indent level @ encode_items level xs)"
| "encode_pairs level [] = []"
| "encode_pairs level (kv # kvs) =
     (if kvs = [] then encode_string (fst kv) @ [58, 32] @ encode level (snd kv)
      else encode_string (fst kv) @ [58, 32] @ encode level (snd kv)
           @ 44 # newline_indent level @ encode_pairs level kvs)"

definition dumps :: "json \<Rightarrow> pystr" where
  "dumps v = encode 0 v"

definition is_ws :: "nat \<Rightarrow> bool" where
  "is_ws c \<longleftrightarrow> c = 32 \<or> c = 9 \<or> c = 10 \<or> c = 13"

definition skip_ws :: "pystr \<Rightarrow> pystr" where
  "skip_ws s = dropWhile is_ws s"

text \<open>A dict built from pairs in order: a key that comes again keeps its place and takes
  the later value.\<close>

definition dict_of :: "(pystr \<times> json) list \<Rightarrow> (pystr \<times> json) list" where
  "dict_of pairs =
     foldl (\<lambda>d (k, v). if k \<in> fst ` set d
                         then map (\<lambda>(k', v'). if k' = k then (k', v) else (k', v')) d
                         else d @ [(k, v)]) [] pairs"

fun scan_once :: "nat \<Rightarrow> pystr \<Rightarrow> (json \<times> pystr) option"
  and parse_array :: "nat \<Rightarrow> json list \<Rightarrow> pystr \<Rightarrow> (json list \<times> pystr) option"
  and parse_object :: "nat \<Rightarrow> (pystr \<times> json) list \<Rightarrow> pystr
        \<Rightarrow> ((pystr \<times> json) list \<times> pystr) option" where
  "scan_once 0 s = None"
| "scan_once (Suc n) s =
     (case s of
        [] \<Rightarrow> None
      | c # cs \<Rightarrow>
          if c = 34 then
            (case scanstring cs [] of
               None \<Rightarrow> None
             | Some (str, rest) \<Rightarrow> Some (JStr str, rest))
          else if c = 123 then
            (case skip_ws cs of
               [] \<Rightarrow> None
             | d # rest \<Rightarrow>
                 if d = 125 then Some (JDict [], rest)
                 else (case parse_object n [] (d # rest) of
                         None \<Rightarrow> None
                       | Some (pairs, rest') \<Rightarrow> Some (JDict (dict_of pairs), rest')))
          else if c = 91 then
            (case skip_ws cs of
               [] \<Rightarrow> None
             | d # rest \<Rightarrow>
                 if d = 93 then Some (JList [], rest)
                 else (case parse_array n [] (d # rest) of
                         None \<Rightarrow> None
                       | Some (items, rest') \<Rightarrow> Some (JList items, rest')))
          else (case match_number s of
                  None \<Rightarrow> None
                | Some (i, rest) \<Rightarrow> Some (JInt i, rest)))"
| "parse_array 0 items s = None"
| "parse_array (Suc n) items s =
     (case scan_once n s of
        None \<Rightarrow> None
      | Some (v, r) \<Rightarrow>
          (case skip_ws r of
             [] \<Rightarrow> None
           | d # rest \<Rightarrow>
               if d = 93 then Some (items @ [v], rest)
               else if d = 44 then parse_array n (items @ [v]) (skip_ws rest)
               else None))"
| "parse_object 0 pairs s = None"
| "parse_object (Suc n) pairs s =
     (case s of
        [] \<Rightarrow> None
      | q # cs \<Rightarrow>
          if q \<noteq> 34 then None
          else (case scanstring cs [] of
                  None \<Rightarrow> None
                | Some (key, r) \<Rightarrow>
                    (case skip_ws r of
                       [] \<Rightarrow> None
                     | colon # r2 \<Rightarrow>
                         if colon \<noteq> 58 then None
                         else (case scan_once n (skip_ws r2) of
                                 None \<Rightarrow> None
                               | Some (v, r3) \<Rightarrow>
                                   (case skip_ws r3 of
                                      [] \<Rightarrow> None
                                    | d # rest \<Rightarrow>
                                        if d = 125 then Some (pairs @ [(key, v)], rest)
                                        else if d = 44
                                          then parse_object n (pairs @ [(key, v)]) (skip_ws rest)
                                        else None)))))"

definition loads :: "pystr \<Rightarrow> json option" where
  "loads s = (case scan_once (length s) (skip_ws s) of
      None \<Rightarrow> None
    | Some (v, rest) \<Rightarrow> if skip_ws rest = [] then Some v else None)"

fun wf_json :: "json \<Rightarrow> bool" where
  "wf_json (JStr s) = wf_text s"
| "wf_json (JInt i) = True"
| "wf_json (JList xs) = (\<forall>x \<in> set xs. wf_json x)"
| "wf_json (JDict kvs) =
     ((\<forall>kv \<in> set kvs. wf_text (fst kv) \<and> wf_json (snd kv)) \<and> distinct (map fst kvs))"

lemma skip_ws_spaces: "skip_ws (replicate n 32 @ s) = skip_ws s"
  by (induction n) (simp_all add: skip_ws_def is_ws_def)

lemma skip_ws_newline_indent [simp]: "skip_ws (newline_indent level @ s) = skip_ws s"
  using skip_ws_spaces [of "2 * level" s]
  by (simp add: newline_indent_def skip_ws_def is_ws_def)

lemma skip_ws_space [simp]: "skip_ws (32 # s) = skip_ws s"
  by (simp add: skip_ws_def is_ws_def)

lemma skip_ws_solid: "\<not> is_ws c \<Longrightarrow> skip_ws (c # s) = c # s"
  by (simp add: skip_ws_def)

lemma ok_rest_simps [simp]:
  "ok_rest []" "ok_rest (44 # s)" "ok_rest (newline_indent level @ s)"
  by (simp_all add: ok_rest_def newline_indent_def)

lemma encode_string_Cons: "encode_string s @ rest = 34 # concat (map escape_char s) @ 34 # rest"
  by (simp add: encode_string_def)

lemma int_repr_head:
  "\<exists>c cs. int_repr i = c # cs \<and> (c = 45 \<or> is_digit c)"
  using to_digits_head [of "nat i"] to_digits_head [of "nat (- i)"]
  by (auto simp add: int_repr_def)

definition opener :: "nat \<Rightarrow> bool" where
  "opener c \<longleftrightarrow> c = 34 \<or> c = 45 \<or> c = 91 \<or> c = 123 \<or> is_digit c"

lemma opener_simps:
  "opener c \<Longrightarrow> \<not> is_ws c" "opener c \<Longrightarrow> c \<noteq> 93" "opener c \<Longrightarrow> c \<noteq> 125"
  by (auto simp add: opener_def is_ws_def is_digit_def)

lemma encode_head: "\<exists>c cs. encode level v = c # cs \<and> opener c"
proof (cases v)
  case (JStr s)
  then show ?thesis by (simp add: encode_string_def opener_def)
next
  case (JInt i)
  with int_repr_head [of i] show ?thesis by (auto simp add: opener_def)
next
  case (JList xs)
  then show ?thesis by (simp add: opener_def)
next
  case (JDict kvs)
  then show ?thesis by (simp add: opener_def)
qed

lemma encode_items_head:
  "xs \<noteq> [] \<Longrightarrow> \<exists>c cs. encode_items level xs = c # cs \<and> opener c"
proof (cases xs)
  case Nil
  then show "xs \<noteq> [] \<Longrightarrow> ?thesis" by simp
next
  case (Cons x rest)
  from encode_head [of level x] obtain c cs where "encode level x = c # cs" "opener c"
    by blast
  with Cons show ?thesis by simp
qed

lemma encode_pairs_head:
  "kvs \<noteq> [] \<Longrightarrow> \<exists>cs. encode_pairs level kvs = 34 # cs"
  by (cases kvs) (simp_all add: encode_string_def)

lemma skip_ws_encode [simp]: "skip_ws (encode level v @ s) = encode level v @ s"
  using encode_head [of level v] by (auto simp add: skip_ws_solid opener_simps)

lemma skip_ws_encode_items [simp]:
  "xs \<noteq> [] \<Longrightarrow> skip_ws (encode_items level xs @ s) = encode_items level xs @ s"
  by (cases xs) (simp_all del: encode.simps)

lemma skip_ws_encode_pairs [simp]:
  "kvs \<noteq> [] \<Longrightarrow> skip_ws (encode_pairs level kvs @ s) = encode_pairs level kvs @ s"
  by (cases kvs) (simp_all add: encode_string_def skip_ws_solid is_ws_def del: encode.simps)

lemma dict_of_distinct_aux:
  "distinct (map fst (d @ kvs)) \<Longrightarrow>
     foldl (\<lambda>d (k, v). if k \<in> fst ` set d
                         then map (\<lambda>(k', v'). if k' = k then (k', v) else (k', v')) d
                         else d @ [(k, v)]) d kvs = d @ kvs"
proof (induction kvs arbitrary: d)
  case Nil
  show ?case by simp
next
  case (Cons kv kvs)
  obtain k v where kv: "kv = (k, v)" by (cases kv)
  from Cons.prems kv have "k \<notin> fst ` set d" by auto
  moreover from Cons.prems kv have "distinct (map fst ((d @ [(k, v)]) @ kvs))" by simp
  ultimately show ?case
    using Cons.IH [of "d @ [(k, v)]"] kv by simp
qed

lemma dict_of_distinct: "distinct (map fst kvs) \<Longrightarrow> dict_of kvs = kvs"
  using dict_of_distinct_aux [of "[]" kvs] by (simp add: dict_of_def)

lemma scan_once_string:
  "wf_text s \<Longrightarrow> scan_once (Suc n) (encode_string s @ rest) = Some (JStr s, rest)"
  by (simp add: encode_string_Cons scanstring_body)

lemma scan_once_int:
  assumes "ok_rest rest"
  shows "scan_once (Suc n) (int_repr i @ rest) = Some (JInt i, rest)"
proof -
  from int_repr_head [of i] obtain c cs where h: "int_repr i = c # cs" and c: "c = 45 \<or> is_digit c"
    by blast
  from c have "c \<noteq> 34" "c \<noteq> 123" "c \<noteq> 91"
    by (auto simp add: is_digit_def)
  moreover have "match_number (c # cs @ rest) = Some (i, rest)"
    using match_number_int_repr [OF assms, of i] h by simp
  ultimately show ?thesis
    using h by simp
qed


lemma length_encode_pos: "0 < length (encode level v)"
  using encode_head [of level v] by auto

declare scan_once.simps [simp del]

lemma scan_once_array:
  assumes "opener d"
  shows "scan_once (Suc m) (91 # newline_indent level @ d # s) =
     (case parse_array m [] (d # s) of
        None \<Rightarrow> None
      | Some (items, rest') \<Rightarrow> Some (JList items, rest'))"
  using assms by (simp add: scan_once.simps skip_ws_solid opener_simps)

lemma scan_once_object:
  assumes "opener d"
  shows "scan_once (Suc m) (123 # newline_indent level @ d # s) =
     (case parse_object m [] (d # s) of
        None \<Rightarrow> None
      | Some (pairs, rest') \<Rightarrow> Some (JDict (dict_of pairs), rest'))"
  using assms by (simp add: scan_once.simps skip_ws_solid opener_simps)

lemma parse_array_last:
  "scan_once m s = Some (v, r) \<Longrightarrow> skip_ws r = 93 # rest \<Longrightarrow>
     parse_array (Suc m) acc s = Some (acc @ [v], rest)"
  by (simp add: scan_once.simps)

lemma parse_array_more:
  "scan_once m s = Some (v, r) \<Longrightarrow> skip_ws r = 44 # rest \<Longrightarrow>
     parse_array (Suc m) acc s = parse_array m (acc @ [v]) (skip_ws rest)"
  by (simp add: scan_once.simps)

lemma parse_object_last:
  "wf_text k \<Longrightarrow> scan_once m (encode level v @ r0) = Some (v, r) \<Longrightarrow> skip_ws r = 125 # rest \<Longrightarrow>
     parse_object (Suc m) acc (encode_string k @ [58, 32] @ encode level v @ r0)
       = Some (acc @ [(k, v)], rest)"
  by (simp add: scan_once.simps encode_string_Cons scanstring_body skip_ws_solid is_ws_def
      del: encode.simps)

lemma parse_object_more:
  "wf_text k \<Longrightarrow> scan_once m (encode level v @ r0) = Some (v, r) \<Longrightarrow> skip_ws r = 44 # rest \<Longrightarrow>
     parse_object (Suc m) acc (encode_string k @ [58, 32] @ encode level v @ r0)
       = parse_object m (acc @ [(k, v)]) (skip_ws rest)"
  by (simp add: scan_once.simps encode_string_Cons scanstring_body skip_ws_solid is_ws_def
      del: encode.simps)


lemma round_trip_aux:
  shows "wf_json v \<Longrightarrow> length (encode level v) \<le> n \<Longrightarrow> ok_rest rest \<Longrightarrow>
           scan_once n (encode level v @ rest) = Some (v, rest)"
    and "xs \<noteq> [] \<Longrightarrow> \<forall>x \<in> set xs. wf_json x \<Longrightarrow> length (encode_items level xs) < n \<Longrightarrow>
           parse_array n acc (encode_items level xs @ newline_indent outer @ 93 # rest)
             = Some (acc @ xs, rest)"
    and "kvs \<noteq> [] \<Longrightarrow> \<forall>kv \<in> set kvs. wf_text (fst kv) \<and> wf_json (snd kv) \<Longrightarrow>
           length (encode_pairs level kvs) < n \<Longrightarrow>
           parse_object n pairs (encode_pairs level kvs @ newline_indent outer @ 125 # rest)
             = Some (pairs @ kvs, rest)"
proof (induction level v and level xs and level kvs
    arbitrary: n rest and n acc rest outer and n pairs rest outer
    rule: encode_encode_items_encode_pairs.induct)
  case (1 level s)
  then obtain m where "n = Suc m"
    by (cases n) (simp_all add: encode_string_def)
  with 1 show ?case
    by (simp add: scan_once_string)
next
  case (2 level i)
  from "2.prems"(2) length_encode_pos [of level "JInt i"] obtain m where "n = Suc m"
    by (cases n) simp_all
  with 2 show ?case
    by (simp add: scan_once_int)
next
  case (3 level xs)
  from "3.prems"(2) length_encode_pos [of level "JList xs"] obtain m where n: "n = Suc m"
    by (cases n) simp_all
  show ?case
  proof (cases "xs = []")
    case True
    with n show ?thesis
      by (simp add: scan_once.simps skip_ws_solid is_ws_def)
  next
    case False
    from "3.prems"(2) False n have l: "length (encode_items (Suc level) xs) < m"
      by simp
    from "3.prems"(1) have w: "\<forall>x \<in> set xs. wf_json x"
      by simp
    from encode_items_head [OF False] obtain d ds
      where i: "encode_items (Suc level) xs = d # ds" and d: "opener d"
      by blast
    have "parse_array m [] (encode_items (Suc level) xs @ newline_indent level @ 93 # rest)
            = Some ([] @ xs, rest)"
      by (rule "3.IH" [OF False False w l])
    with i have "parse_array m [] (d # ds @ newline_indent level @ 93 # rest) = Some (xs, rest)"
      by simp
    with False n i show ?thesis
      by (simp add: scan_once_array [OF d])
  qed
next
  case (4 level kvs)
  from "4.prems"(2) length_encode_pos [of level "JDict kvs"] obtain m where n: "n = Suc m"
    by (cases n) simp_all
  show ?case
  proof (cases "kvs = []")
    case True
    with n show ?thesis
      by (simp add: scan_once.simps skip_ws_solid is_ws_def)
  next
    case False
    from "4.prems"(2) False n have l: "length (encode_pairs (Suc level) kvs) < m"
      by simp
    from "4.prems"(1) have w: "\<forall>kv \<in> set kvs. wf_text (fst kv) \<and> wf_json (snd kv)"
      and dist: "distinct (map fst kvs)"
      by simp_all
    from encode_pairs_head [OF False] obtain ds
      where i: "encode_pairs (Suc level) kvs = 34 # ds"
      by blast
    have o: "opener 34"
      by (simp add: opener_def)
    have "parse_object m [] (encode_pairs (Suc level) kvs @ newline_indent level @ 125 # rest)
            = Some ([] @ kvs, rest)"
      by (rule "4.IH" [OF False False w l])
    with i have "parse_object m [] (34 # ds @ newline_indent level @ 125 # rest) = Some (kvs, rest)"
      by simp
    with False n i dist show ?thesis
      by (simp add: scan_once_object [OF o] dict_of_distinct)
  qed
next
  case (5 level)
  then show ?case by simp
next
  case (6 level x xs)
  from "6.prems"(3) obtain m where n: "n = Suc m"
    by (cases n) simp_all
  from "6.prems"(2) have wx: "wf_json x" and wxs: "\<forall>y \<in> set xs. wf_json y"
    by simp_all
  show ?case
  proof (cases "xs = []")
    case True
    from "6.prems"(3) n True have l: "length (encode level x) \<le> m"
      by simp
    have "scan_once m (encode level x @ newline_indent outer @ 93 # rest)
            = Some (x, newline_indent outer @ 93 # rest)"
      by (rule "6.IH"(1) [OF True wx l]) simp
    then have "parse_array (Suc m) acc (encode level x @ newline_indent outer @ 93 # rest)
            = Some (acc @ [x], rest)"
      by (rule parse_array_last) (simp add: skip_ws_solid is_ws_def)
    with True n show ?thesis
      by simp
  next
    case False
    let ?tail = "encode_items level xs @ newline_indent outer @ 93 # rest"
    from "6.prems"(3) n False have l: "length (encode level x) \<le> m"
      and l': "length (encode_items level xs) < m"
      by simp_all
    have "scan_once m (encode level x @ 44 # newline_indent level @ ?tail)
            = Some (x, 44 # newline_indent level @ ?tail)"
      by (rule "6.IH"(2) [OF False wx l]) simp
    then have "parse_array (Suc m) acc (encode level x @ 44 # newline_indent level @ ?tail)
            = parse_array m (acc @ [x]) (skip_ws (newline_indent level @ ?tail))"
      by (rule parse_array_more) (simp add: skip_ws_solid is_ws_def)
    also have "skip_ws (newline_indent level @ ?tail) = ?tail"
      using False by simp
    also have "parse_array m (acc @ [x]) ?tail = Some ((acc @ [x]) @ xs, rest)"
      by (rule "6.IH"(3) [OF False False wxs l'])
    finally show ?thesis
      using False n by simp
  qed
next
  case (7 level)
  then show ?case by simp
next
  case (8 level kv kvs)
  from "8.prems"(3) obtain m where n: "n = Suc m"
    by (cases n) simp_all
  from "8.prems"(2) have wk: "wf_text (fst kv)" and wv: "wf_json (snd kv)"
    and wkvs: "\<forall>p \<in> set kvs. wf_text (fst p) \<and> wf_json (snd p)"
    by simp_all
  show ?case
  proof (cases "kvs = []")
    case True
    from "8.prems"(3) n True have l: "length (encode level (snd kv)) \<le> m"
      by simp
    have "scan_once m (encode level (snd kv) @ newline_indent outer @ 125 # rest)
            = Some (snd kv, newline_indent outer @ 125 # rest)"
      by (rule "8.IH"(1) [OF True wv l]) simp
    with wk have "parse_object (Suc m) pairs
             (encode_string (fst kv) @ [58, 32] @ encode level (snd kv)
                @ newline_indent outer @ 125 # rest)
            = Some (pairs @ [(fst kv, snd kv)], rest)"
      by (rule parse_object_last) (simp add: skip_ws_solid is_ws_def)
    with True n show ?thesis
      by simp
  next
    case False
    let ?tail = "encode_pairs level kvs @ newline_indent outer @ 125 # rest"
    from "8.prems"(3) n False have l: "length (encode level (snd kv)) \<le> m"
      and l': "length (encode_pairs level kvs) < m"
      by simp_all
    have "scan_once m (encode level (snd kv) @ 44 # newline_indent level @ ?tail)
            = Some (snd kv, 44 # newline_indent level @ ?tail)"
      by (rule "8.IH"(2) [OF False wv l]) simp
    with wk have "parse_object (Suc m) pairs
             (encode_string (fst kv) @ [58, 32] @ encode level (snd kv)
                @ 44 # newline_indent level @ ?tail)
            = parse_object m (pairs @ [(fst kv, snd kv)]) (skip_ws (newline_indent level @ ?tail))"
      by (rule parse_object_more) (simp add: skip_ws_solid is_ws_def)
    also have "skip_ws (newline_indent level @ ?tail) = ?tail"
      using False by simp
    also have "parse_object m (pairs @ [(fst kv, snd kv)]) ?tail
                 = Some ((pairs @ [(fst kv, snd kv)]) @ kvs, rest)"
      by (rule "8.IH"(3) [OF False False wkvs l'])
    finally show ?thesis
      using False n by simp
  qed
qed

theorem loads_dumps: "wf_json v \<Longrightarrow> loads (dumps v) = Some v"
  using round_trip_aux(1) [of v 0 "length (encode 0 v)" "[]"] skip_ws_encode [of 0 v "[]"]
  by (simp add: loads_def dumps_def skip_ws_def)

subsection \<open>The log as a document\<close>

text \<open>\<^verbatim>\<open>_format_logs_as_json\<close>: the dict with the start time and the entries, every
  entry a dict of its four fields in the order \<^verbatim>\<open>log_event\<close> builds them.\<close>

fun val_json :: "val \<Rightarrow> json" where
  "val_json (VStr s) = JStr s"
| "val_json (VInt i) = JInt i"

definition entry_json :: "log_entry \<Rightarrow> json" where
  "entry_json e =
     JDict [(lit ''timestamp'', JStr (timestamp e)),
            (lit ''event'', JStr (event e)),
            (lit ''step'', JInt (step e)),
            (lit ''details'', JDict (map (\<lambda>kv. (fst kv, val_json (snd kv))) (details e)))]"

definition log_data :: "state \<Rightarrow> json" where
  "log_data s =
     JDict [(lit ''session_start'', JStr (session_start_time s)),
            (lit ''logs'', JList (map entry_json (session_logs s)))]"

definition format_logs_as_json :: "state \<Rightarrow> pystr" where
  "format_logs_as_json s = dumps (log_data s)"

text \<open>Reading a parsed document the way a test reads it: \<^verbatim>\<open>doc["logs"]\<close>, and of every
  entry \<^verbatim>\<open>e["event"]\<close>, \<^verbatim>\<open>e["step"]\<close> and \<^verbatim>\<open>e["details"]\<close>.\<close>

fun getkey :: "pystr \<Rightarrow> json \<Rightarrow> json option" where
  "getkey k (JDict kvs) = map_of kvs k"
| "getkey k _ = None"

fun json_val :: "json \<Rightarrow> val option" where
  "json_val (JStr s) = Some (VStr s)"
| "json_val (JInt i) = Some (VInt i)"
| "json_val _ = None"

definition read_details :: "json \<Rightarrow> (pystr \<times> val) list option" where
  "read_details d = (case d of
      JDict kvs \<Rightarrow> those (map (\<lambda>kv. map_option (\<lambda>v. (fst kv, v)) (json_val (snd kv))) kvs)
    | _ \<Rightarrow> None)"

definition read_entry :: "json \<Rightarrow> (pystr \<times> int \<times> (pystr \<times> val) list) option" where
  "read_entry e =
     (case (getkey (lit ''event'') e, getkey (lit ''step'') e, getkey (lit ''details'') e) of
        (Some (JStr ev), Some (JInt st), Some d) \<Rightarrow>
          map_option (\<lambda>ds. (ev, st, ds)) (read_details d)
      | _ \<Rightarrow> None)"

definition read_log :: "json \<Rightarrow> (pystr \<times> int \<times> (pystr \<times> val) list) list option" where
  "read_log doc = (case getkey (lit ''logs'') doc of
      Some (JList es) \<Rightarrow> those (map read_entry es)
    | _ \<Rightarrow> None)"

text \<open>Well-formed text has Unicode scalar values only; a details dict has each key once.\<close>

fun wf_val :: "val \<Rightarrow> bool" where
  "wf_val (VStr s) = wf_text s"
| "wf_val (VInt i) = True"

definition wf_details :: "(pystr \<times> val) list \<Rightarrow> bool" where
  "wf_details d \<longleftrightarrow>
     list_all (\<lambda>kv. wf_text (fst kv) \<and> wf_val (snd kv)) d \<and> distinct (map fst d)"

definition wf_entry :: "log_entry \<Rightarrow> bool" where
  "wf_entry e \<longleftrightarrow> wf_text (timestamp e) \<and> wf_text (event e) \<and> wf_details (details e)"

text \<open>Appending events one after the other, each at its own value of the step index.\<close>

definition append_events ::
    "(int \<times> pystr \<times> (pystr \<times> val) list option) list \<Rightarrow> state \<Rightarrow> state" where
  "append_events evs s =
     foldl (\<lambda>s' (i, ev, d). log_event ev d (s'\<lparr>current_step := i\<rparr>)) s evs"

definition recorded ::
    "int \<times> pystr \<times> (pystr \<times> val) list option \<Rightarrow> pystr \<times> int \<times> (pystr \<times> val) list" where
  "recorded a = (case a of (i, ev, d) \<Rightarrow> (ev, i + 1, (case d of None \<Rightarrow> [] | Some x \<Rightarrow> x)))"

definition wf_event :: "int \<times> pystr \<times> (pystr \<times> val) list option \<Rightarrow> bool" where
  "wf_event a \<longleftrightarrow> wf_text (fst (recorded a)) \<and> wf_details (snd (snd (recorded a)))"

lemma of_char_small: "(of_char c :: nat) < 256"
  by (cases c) (simp add: of_char_def)

lemma wf_text_lit [simp]: "wf_text (lit cs)"
proof -
  have "(of_char c :: nat) < 1114112
      \<and> \<not> (55296 \<le> (of_char c :: nat) \<and> (of_char c :: nat) \<le> 57343)" for c
    using of_char_small [of c] by linarith
  then show ?thesis
    by (simp add: wf_text_def lit_def list_all_iff)
qed

lemma those_map_Some: "those (map (\<lambda>x. Some (f x)) xs) = Some (map f xs)"
  by (induction xs) simp_all

lemma wf_json_val: "wf_val v \<Longrightarrow> wf_json (val_json v)"
  by (cases v) simp_all

lemma json_val_val_json [simp]: "json_val (val_json v) = Some v"
  by (cases v) simp_all

lemma wf_json_entry:
  assumes "wf_entry e"
  shows "wf_json (entry_json e)"
proof -
  from assms have d: "list_all (\<lambda>kv. wf_text (fst kv) \<and> wf_val (snd kv)) (details e)"
    and u: "distinct (map fst (details e))"
    and t: "wf_text (timestamp e)" "wf_text (event e)"
    by (simp_all add: wf_entry_def wf_details_def)
  from d have "\<forall>kv \<in> set (details e). wf_text (fst kv) \<and> wf_json (val_json (snd kv))"
    by (auto simp add: list_all_iff wf_json_val)
  then have "wf_json (JDict (map (\<lambda>kv. (fst kv, val_json (snd kv))) (details e)))"
    using u by (simp add: comp_def)
  with t show ?thesis
    by (simp add: entry_json_def)
qed

lemma wf_json_log_data:
  assumes "wf_text (session_start_time s)" and "list_all wf_entry (session_logs s)"
  shows "wf_json (log_data s)"
  using assms by (simp add: log_data_def list_all_iff wf_json_entry)

lemma read_details_entry:
  "read_details (JDict (map (\<lambda>kv. (fst kv, val_json (snd kv))) d)) = Some d"
proof -
  have "map (\<lambda>kv. map_option (\<lambda>v. (fst kv, v)) (json_val (snd kv)))
          (map (\<lambda>kv. (fst kv, val_json (snd kv))) d) = map (\<lambda>kv. Some (id kv)) d"
    by simp
  then show ?thesis
    by (simp add: read_details_def those_map_Some del: map_map)
qed

lemma read_entry_entry: "read_entry (entry_json e) = Some (entry_view e)"
  by (simp add: read_entry_def entry_json_def read_details_entry entry_view_def)

lemma read_log_log_data: "read_log (log_data s) = Some (map entry_view (session_logs s))"
proof -
  have "map read_entry (map entry_json (session_logs s))
          = map (\<lambda>e. Some (entry_view e)) (session_logs s)"
    by (simp add: read_entry_entry)
  then show ?thesis
    by (simp add: read_log_def log_data_def those_map_Some del: map_map)
qed

lemma read_back_state:
  assumes "wf_text (session_start_time s)" and "list_all wf_entry (session_logs s)"
  shows "Option.bind (loads (format_logs_as_json s)) read_log
           = Some (map entry_view (session_logs s))"
  using loads_dumps [OF wf_json_log_data [OF assms]]
  by (simp add: format_logs_as_json_def read_log_log_data)

lemma append_events_logs:
  assumes "wf_text (session_start_time s)" and "list_all wf_entry (session_logs s)"
    and "\<forall>n. wf_text (clock s n)" and "list_all wf_event evs"
  shows "wf_text (session_start_time (append_events evs s))
     \<and> list_all wf_entry (session_logs (append_events evs s))
     \<and> map entry_view (session_logs (append_events evs s))
         = map entry_view (session_logs s) @ map recorded evs"
  using assms
proof (induction evs arbitrary: s)
  case Nil
  then show ?case by (simp add: append_events_def)
next
  case (Cons a evs)
  obtain i ev d where a: "a = (i, ev, d)"
    by (cases a)
  let ?s1 = "log_event ev d (s\<lparr>current_step := i\<rparr>)"
  from Cons.prems(4) a have e: "wf_text ev" "wf_details (case d of None \<Rightarrow> [] | Some x \<Rightarrow> x)"
    by (simp_all add: wf_event_def recorded_def)
  have 1: "wf_text (session_start_time ?s1)"
    using Cons.prems(1) by simp
  have "wf_entry \<lparr>timestamp = clock s (ticks s), event = ev, step = i + 1,
                    details = (case d of None \<Rightarrow> [] | Some x \<Rightarrow> x)\<rparr>"
    using Cons.prems(3) e by (simp add: wf_entry_def)
  then have 2: "list_all wf_entry (session_logs ?s1)"
    using Cons.prems(2) by simp
  have 3: "\<forall>n. wf_text (clock ?s1 n)"
    using Cons.prems(3) by simp
  have 4: "list_all wf_event evs"
    using Cons.prems(4) by simp
  have "append_events (a # evs) s = append_events evs ?s1"
    by (simp add: append_events_def a)
  moreover have "map entry_view (session_logs ?s1) = map entry_view (session_logs s) @ [recorded a]"
    by (simp add: entry_view_def recorded_def a)
  ultimately show ?case
    using Cons.IH [OF 1 2 3 4] by simp
qed

lemma init_wf:
  "wf_text (session_start_time (init ks cs chs still_clock dsk))"
  "list_all wf_entry (session_logs (init ks cs chs still_clock dsk))"
  "\<forall>n. wf_text (clock (init ks cs chs still_clock dsk) n)"
  by (simp_all add: init_def still_clock_def wf_entry_def wf_details_def)


text \<open>Two lone surrogates that form a pair are written exactly like the one code point
  the pair stands for, so two different logs have the same rendering.\<close>

lemma surrogate_pair_collision:
  "format_logs_as_json
     (append_events [(0, lit ''note'', Some [(lit ''text'', VStr [55356, 57225])])]
        (init [] [] [] still_clock good_disk))
   = format_logs_as_json
     (append_events [(0, lit ''note'', Some [(lit ''text'', VStr [127881])])]
        (init [] [] [] still_clock good_disk))"
  by (simp add: format_logs_as_json_def dumps_def log_data_def entry_json_def append_events_def
      init_def encode_string_def escape_char_def hex4_def hex_digit_def)

subsection \<open>Round trip\<close>




end
